theory Spec2Isabelle
  imports Main "HOL-Library.Word" "HOL-Library.Multiset"
begin

section \<open>Data model of the GCR cleaner\<close>

text \<open>
  The Go program keeps its sets as \<^verbatim>\<open>map[string]bool\<close>. Reading a missing key of such
  a map gives \<^verbatim>\<open>false\<close>, which \<open>lookup\<close> writes out.
\<close>

type_synonym boolmap = "string \<rightharpoonup> bool"

definition lookup :: "boolmap \<Rightarrow> string \<Rightarrow> bool" where
  "lookup m k = (case m k of None \<Rightarrow> False | Some b \<Rightarrow> b)"

type_synonym int64 = "64 word"

text \<open>
  \<^verbatim>\<open>gcrgoogle.ManifestInfo\<close>: the fields the cleaner reads, the size (a \<^verbatim>\<open>uint64\<close>) and
  the tags of the manifest.
\<close>

record ManifestInfo =
  Size :: "64 word"
  Tags :: "string list"

text \<open>
  \<^verbatim>\<open>gcrgoogle.Tags\<close>, the answer of a listing: child repositories, the manifests by
  digest (a Go map, here the pairs in the order the \<^verbatim>\<open>range\<close> loop visits them) and the
  tag names in the registry's order (its field \<^verbatim>\<open>Tags\<close>, here \<open>TagNames\<close>).
\<close>

record TagsListing =
  Children :: "string list"
  Manifests :: "(string \<times> ManifestInfo) list"
  TagNames :: "string list"

text \<open>The \<^verbatim>\<open>Cleaner\<close> struct without its authenticator.\<close>

record Cleaner =
  concurrency :: int
  repoExcept :: boolmap
  tagExcept :: boolmap
  globalTagExcept :: boolmap

text \<open>The package variables \<^verbatim>\<open>keep\<close> and \<^verbatim>\<open>repo\<close>, read from the environment at start.\<close>

record Globals =
  keep :: int64
  repo :: string

section \<open>The retention loop\<close>

text \<open>\<^verbatim>\<open>max\<close> of the source, on Go's \<^verbatim>\<open>int\<close> values read as integers.\<close>

definition max_int :: "int \<Rightarrow> int \<Rightarrow> int" where
  "max_int x y = (if x > y then x else y)"

text \<open>\<^verbatim>\<open>fmt.Sprintf("%s:%s", name, tag)\<close>.\<close>

definition tagName_of :: "string \<Rightarrow> string \<Rightarrow> string" where
  "tagName_of name t = name @ '':'' @ t"

text \<open>
  \<^verbatim>\<open>control := max(len(tags.Tags)-keep, 0)\<close>; the subtraction is one of 64-bit Go
  \<^verbatim>\<open>int\<close>s and wraps around.
\<close>

definition initial_control :: "Globals \<Rightarrow> string list \<Rightarrow> int" where
  "initial_control g tags = max_int (sint (word_of_nat (length tags) - keep g)) 0"

text \<open>
  The loop \<^verbatim>\<open>for t := len(tags.Tags)-1; t >= control; t--\<close>. The map it writes,
  \<^verbatim>\<open>keeping\<close>, was bound by \<^verbatim>\<open>var keeping = c.tagExcept\<close>: a Go map value is a
  reference, so \<^verbatim>\<open>keeping\<close> and \<^verbatim>\<open>c.tagExcept\<close> are one map, the one the exception
  test of the loop reads. The model therefore carries a single map \<open>te\<close>. An index outside
  the slice panics: \<open>None\<close>. Both \<open>t\<close> and \<open>control\<close> stay between \<open>-1\<close> and the
  length of the slice, so their decrements do not wrap.
\<close>

function keep_loop :: "boolmap \<Rightarrow> string \<Rightarrow> string list \<Rightarrow> int \<Rightarrow> int \<Rightarrow> boolmap \<Rightarrow> boolmap option" where
  "keep_loop gte name tags t control te =
     (if t \<ge> control then
        (if 0 \<le> t \<and> t < int (length tags) then
           (let tagName = tagName_of name (tags ! nat t);
                control' = (if lookup gte (tags ! nat t) \<or> lookup te tagName
                            then max_int (control - 1) 0 else control)
            in keep_loop gte name tags (t - 1) control' (te(tagName \<mapsto> True)))
         else None)
      else Some te)"
  by pat_completeness auto
termination
  by (relation "measure (\<lambda>(gte, name, tags, t, control, te). nat (t + 1))") auto

text \<open>
  Lines 107 to 124 of \<^verbatim>\<open>Clean\<close> for one child repository \<open>name\<close> with tag list
  \<open>tags\<close>: the result is the map \<^verbatim>\<open>keeping\<close>, which is also the new \<^verbatim>\<open>c.tagExcept\<close>.
\<close>

definition build_keeping :: "Globals \<Rightarrow> Cleaner \<Rightarrow> string \<Rightarrow> string list \<Rightarrow> boolmap option" where
  "build_keeping g c name tags =
     (let control = initial_control g tags;
          control = (if lookup (repoExcept c) name then 0 else control)
      in keep_loop (globalTagExcept c) name tags (int (length tags) - 1) control (tagExcept c))"

section \<open>The deletion decision\<close>

text \<open>
  \<^verbatim>\<open>shouldDelete\<close> returns its verdict and the new value of \<^verbatim>\<open>*total\<close> (here \<open>tot\<close>); the addition
  is one of \<^verbatim>\<open>int64\<close> and wraps, \<^verbatim>\<open>int64(m.Size)\<close> keeps the bits.
\<close>

fun shouldDelete_tags :: "string \<Rightarrow> ManifestInfo \<Rightarrow> boolmap \<Rightarrow> int64 \<Rightarrow> string list \<Rightarrow> bool \<times> int64" where
  "shouldDelete_tags n m keeping tot [] = (True, tot)"
| "shouldDelete_tags n m keeping tot (t # ts) =
     (if lookup keeping (tagName_of n t) then (False, tot + Size m)
      else shouldDelete_tags n m keeping tot ts)"

definition shouldDelete :: "Cleaner \<Rightarrow> string \<Rightarrow> ManifestInfo \<Rightarrow> boolmap \<Rightarrow> int64 \<Rightarrow> bool \<times> int64" where
  "shouldDelete c n m keeping tot =
     (if length (Tags m) > 0 then shouldDelete_tags n m keeping tot (Tags m)
      else (True, tot))"

section \<open>The registry and \<^verbatim>\<open>deleteOne\<close>\<close>

text \<open>
  An error made by \<^verbatim>\<open>fmt.Errorf("...: %w", ..., err)\<close>: its text and the text of the
  error it wraps, which is what \<^verbatim>\<open>errors.Unwrap(err).Error()\<close> gives.
\<close>

record derr =
  msg :: string
  cause :: string

text \<open>
  The trace of \<^verbatim>\<open>deleteOne\<close>: the references it was called with, in the order of the
  calls, each with what the call returned (\<open>None\<close> for \<^verbatim>\<open>nil\<close>).
\<close>

type_synonym trace = "(string \<times> derr option) list"

text \<open>
  The registry client library is outside the repository; the cleaner sees it through four
  calls, taken here as parameters. \<^verbatim>\<open>gcrname.NewRepository\<close> answers an error text or
  accepts the name, \<^verbatim>\<open>gcrgoogle.List\<close> answers an error text or a listing,
  \<^verbatim>\<open>gcrname.ParseReference\<close> answers an error text or the parsed name, and
  \<^verbatim>\<open>gcrremote.Delete\<close> answers an error text or succeeds. The answer of the deletion
  may depend on the calls of \<^verbatim>\<open>deleteOne\<close> made before (its first argument).
\<close>

record Registry =
  gcr_NewRepository :: "string \<Rightarrow> string option"
  gcr_List :: "string \<Rightarrow> string + TagsListing"
  gcr_ParseReference :: "string \<Rightarrow> string + string"
  gcr_Delete :: "trace \<Rightarrow> string \<Rightarrow> string option"

text \<open>
  \<^verbatim>\<open>deleteOne\<close>, with the trace of its calls: every call appends its reference and
  what it returns.
\<close>

definition deleteOne_result :: "Registry \<Rightarrow> string \<Rightarrow> trace \<Rightarrow> derr option" where
  "deleteOne_result reg ref log =
     (case gcr_ParseReference reg ref of
        Inl e \<Rightarrow> Some \<lparr>msg = ''Failed to parse reference '' @ ref @ '': '' @ e, cause = e\<rparr>
      | Inr n \<Rightarrow>
          (case gcr_Delete reg log n of
             Some e \<Rightarrow> Some \<lparr>msg = ''Failed to delete '' @ n @ '': '' @ e, cause = e\<rparr>
           | None \<Rightarrow> None))"

definition deleteOne :: "Registry \<Rightarrow> string \<Rightarrow> trace \<Rightarrow> derr option \<times> trace" where
  "deleteOne reg ref log =
     (deleteOne_result reg ref log, log @ [(ref, deleteOne_result reg ref log)])"

section \<open>One repository: the main loop and the worker pool\<close>

text \<open>
  The closure handed to \<^verbatim>\<open>pool.Submit\<close> touches the shared map \<^verbatim>\<open>errs\<close> and the
  shared counter \<^verbatim>\<open>del\<close> only under their locks, so a unit of work is a sequence of
  atomic steps, and a run of the pool is an interleaving of the steps of its units with
  those of the main goroutine. A unit is at one of these points:
  \<^item> \<open>Queued\<close>: submitted, waiting in the queue of the pool;
  \<^item> \<open>Taken\<close>: handed to a worker, before the test \<^verbatim>\<open>len(errs) > 0\<close>;
  \<^item> \<open>Calling\<close>: past the test \<^verbatim>\<open>len(errs) > 0\<close>, about to call \<^verbatim>\<open>deleteOne\<close>;
  \<^item> \<open>Failed e\<close>: \<^verbatim>\<open>deleteOne\<close> returned the error \<open>e\<close>, about to look its cause up;
  \<^item> \<open>Counting r\<close>: about to increment \<^verbatim>\<open>del\<close>, after \<^verbatim>\<open>deleteOne\<close> returned \<open>r\<close>
    (\<open>None\<close> for success, or an error whose cause was in \<^verbatim>\<open>errs\<close> already);
  \<^item> \<open>Skipped\<close>: returned at the test of \<^verbatim>\<open>errs\<close>, before any \<^verbatim>\<open>deleteOne\<close>;
  \<^item> \<open>Recorded e\<close>: returned after storing \<open>e\<close> in \<^verbatim>\<open>errs\<close>;
  \<^item> \<open>Counted r\<close>: returned after incrementing \<^verbatim>\<open>del\<close>.
\<close>

datatype tstate =
  Queued | Taken | Calling | Failed derr | Counting "derr option"
  | Skipped | Recorded derr | Counted "derr option"

text \<open>
  The state of the processing of one child repository: the manifests the \<^verbatim>\<open>range\<close>
  loop has still to visit, what the main goroutine has still to do for the manifest in hand
  (tags to delete, then the reference to submit), the variables \<^verbatim>\<open>size\<close> and \<^verbatim>\<open>del\<close>,
  the submitted units in the order of submission, the map \<^verbatim>\<open>errs\<close> (its entries in
  the order of insertion; the order in which \<^verbatim>\<open>range\<close> visits them is left open where
  it is read) and the trace of \<^verbatim>\<open>deleteOne\<close>. The counter \<^verbatim>\<open>del\<close> never exceeds the
  number of manifests, so the Go \<^verbatim>\<open>int\<close> does not wrap and is an integer here.
\<close>

record rstate =
  todo :: "(string \<times> ManifestInfo) list"
  pending :: "(string list \<times> string) option"
  kept_size :: int64
  del :: int
  tasks :: "(string \<times> tstate) list"
  errs :: "(string \<times> derr) list"
  calls :: trace

text \<open>
  One step of the main goroutine in the loop of lines 126 to 166: delete the next tag of
  the manifest in hand (the result of \<^verbatim>\<open>deleteOne\<close> is dropped), or submit its digest
  reference, or visit the next manifest.
\<close>

definition main_step :: "Registry \<Rightarrow> Cleaner \<Rightarrow> string \<Rightarrow> boolmap \<Rightarrow> bool \<Rightarrow> rstate \<Rightarrow> rstate" where
  "main_step reg c name keeping dry s =
     (case pending s of
        Some (tgs, ref) \<Rightarrow>
          (case tgs of
             t # ts \<Rightarrow> s\<lparr>pending := Some (ts, ref),
                          calls := snd (deleteOne reg (name @ '':'' @ t) (calls s))\<rparr>
           | [] \<Rightarrow> s\<lparr>pending := None, tasks := tasks s @ [(ref, Queued)]\<rparr>)
      | None \<Rightarrow>
          (case todo s of
             [] \<Rightarrow> s
           | km # rest \<Rightarrow>
               (let verdict = shouldDelete c name (snd km) keeping (kept_size s);
                    s' = s\<lparr>todo := rest, kept_size := snd verdict\<rparr>
                in if fst verdict then
                     (if dry then s'\<lparr>del := del s + 1\<rparr>
                      else s'\<lparr>pending := Some (Tags (snd km), name @ ''@'' @ fst km)\<rparr>)
                   else s')))"

text \<open>
  The pool of \<^verbatim>\<open>workerpool.New(c.concurrency)\<close>, by the contract of that library: a
  size below one counts as one, units begin in the order of submission, and no more than
  the size are under way at a time.
\<close>

definition pool_size :: "Cleaner \<Rightarrow> nat" where
  "pool_size c = (if concurrency c < 1 then 1 else nat (concurrency c))"

text \<open>
  A unit holds a worker from the moment it is taken until it returns; the pool may hand
  the unit \<open>i\<close> to a worker when every unit submitted before it has been taken and fewer
  than \<open>n\<close> units hold a worker.
\<close>

fun inflight :: "tstate \<Rightarrow> bool" where
  "inflight Taken = True"
| "inflight Calling = True"
| "inflight (Failed e) = True"
| "inflight (Counting r) = True"
| "inflight p = False"

definition may_start :: "nat \<Rightarrow> nat \<Rightarrow> rstate \<Rightarrow> bool" where
  "may_start n i s =
     (Queued \<notin> set (take i (map snd (tasks s)))
      \<and> length (filter inflight (map snd (tasks s))) < n)"

text \<open>Unit \<open>i\<close> moves to the point \<open>p\<close>.\<close>

definition set_task :: "nat \<Rightarrow> tstate \<Rightarrow> rstate \<Rightarrow> rstate" where
  "set_task i p s = s\<lparr>tasks := (tasks s)[i := (fst (tasks s ! i), p)]\<rparr>"

text \<open>
  One atomic step of unit \<open>i\<close>, the closure of lines 139 to 164. A step that cannot be
  taken (no such unit, a unit that has returned, a unit the pool may not begin yet) leaves
  the state as it is.
\<close>

definition worker_step :: "Registry \<Rightarrow> nat \<Rightarrow> nat \<Rightarrow> rstate \<Rightarrow> rstate" where
  "worker_step reg n i s =
     (if i < length (tasks s) then
        (case snd (tasks s ! i) of
           Queued \<Rightarrow> (if may_start n i s then set_task i Taken s else s)
         | Taken \<Rightarrow>
             (if length (errs s) > 0 then set_task i Skipped s else set_task i Calling s)
         | Calling \<Rightarrow>
             (let r = deleteOne reg (fst (tasks s ! i)) (calls s)
              in set_task i (case fst r of Some e \<Rightarrow> Failed e | None \<Rightarrow> Counting None)
                   (s\<lparr>calls := snd r\<rparr>))
         | Failed e \<Rightarrow>
             (if map_of (errs s) (cause e) = None
              then set_task i (Recorded e) (s\<lparr>errs := errs s @ [(cause e, e)]\<rparr>)
              else set_task i (Counting (Some e)) s)
         | Counting r \<Rightarrow> set_task i (Counted r) (s\<lparr>del := del s + 1\<rparr>)
         | Skipped \<Rightarrow> s
         | Recorded e \<Rightarrow> s
         | Counted r \<Rightarrow> s)
      else s)"

text \<open>A schedule names, step by step, who moves: the main goroutine or a unit.\<close>

datatype action = Main | Worker nat

definition step :: "Registry \<Rightarrow> Cleaner \<Rightarrow> string \<Rightarrow> boolmap \<Rightarrow> action \<Rightarrow> rstate \<Rightarrow> rstate" where
  "step reg c name keeping a s =
     (case a of
        Main \<Rightarrow> main_step reg c name keeping False s
      | Worker i \<Rightarrow> worker_step reg (pool_size c) i s)"

definition exec :: "Registry \<Rightarrow> Cleaner \<Rightarrow> string \<Rightarrow> boolmap \<Rightarrow> action list \<Rightarrow> rstate \<Rightarrow> rstate" where
  "exec reg c name keeping sched s = fold (step reg c name keeping) sched s"

text \<open>The main goroutine runs its loop to the end.\<close>

definition main_done :: "rstate \<Rightarrow> bool" where
  "main_done s = (pending s = None \<and> todo s = [])"

definition main_fuel :: "rstate \<Rightarrow> nat" where
  "main_fuel s =
     (case pending s of None \<Rightarrow> 0 | Some (tgs, ref) \<Rightarrow> length tgs + 1)
     + sum_list (map (\<lambda>km. length (Tags (snd km)) + 2) (todo s))"

function finish_main :: "Registry \<Rightarrow> Cleaner \<Rightarrow> string \<Rightarrow> boolmap \<Rightarrow> bool \<Rightarrow> rstate \<Rightarrow> rstate" where
  "finish_main reg c name keeping dry s =
     (if main_done s then s
      else finish_main reg c name keeping dry (main_step reg c name keeping dry s))"
  by pat_completeness auto
termination
  by (relation "measure (\<lambda>(reg, c, name, keeping, dry, s). main_fuel s)")
     (auto simp: main_done_def main_fuel_def main_step_def Let_def
           split: option.splits list.splits prod.splits)

text \<open>
  \<^verbatim>\<open>pool.StopWait()\<close>, by the contract of the library: it returns when every submitted
  unit has run. A unit takes at most five steps to return; the units that have not
  returned yet are run to their end in the order of submission.
\<close>

definition finish_task :: "Registry \<Rightarrow> nat \<Rightarrow> nat \<Rightarrow> rstate \<Rightarrow> rstate" where
  "finish_task reg n i s =
     worker_step reg n i (worker_step reg n i (worker_step reg n i
       (worker_step reg n i (worker_step reg n i s))))"

definition stopWait :: "Registry \<Rightarrow> nat \<Rightarrow> rstate \<Rightarrow> rstate" where
  "stopWait reg n s = fold (finish_task reg n) [0..<length (tasks s)] s"

text \<open>
  Lines 126 to 171 for one repository. In a dry run nothing is submitted and
  \<^verbatim>\<open>StopWait\<close> is not called; in a real run the units move as the schedule says while
  the main loop runs, then the main goroutine ends its loop and waits for the pool.
\<close>

definition run_repo :: "Registry \<Rightarrow> Cleaner \<Rightarrow> string \<Rightarrow> boolmap \<Rightarrow> bool \<Rightarrow> action list \<Rightarrow> rstate \<Rightarrow> rstate" where
  "run_repo reg c name keeping dry sched s =
     (if dry then finish_main reg c name keeping True s
      else stopWait reg (pool_size c)
             (finish_main reg c name keeping False (exec reg c name keeping sched s)))"

section \<open>The whole run\<close>

text \<open>
  A status line, before \<^verbatim>\<open>fmt.Sprintf\<close> and \<^verbatim>\<open>getSize\<close> turn it into text: the
  repository, \<^verbatim>\<open>del\<close>, \<^verbatim>\<open>len(tags.Manifests)-del\<close>, \<^verbatim>\<open>size\<close>, and which of the two
  wordings (dry or real) is used.
\<close>

record StatusLine =
  st_name :: string
  st_deleted :: int
  st_kept :: int
  st_size :: int64
  st_dry :: bool

text \<open>
  What \<^verbatim>\<open>Clean\<close> carries from one child repository to the next: the cleaner (its
  \<^verbatim>\<open>tagExcept\<close> map is written through \<^verbatim>\<open>keeping\<close>), \<^verbatim>\<open>status\<close>,
  \<^verbatim>\<open>errStrings\<close> and the trace of \<^verbatim>\<open>deleteOne\<close>.
\<close>

record cstate =
  cleaner :: Cleaner
  status :: "StatusLine list"
  errStrings :: "string list"
  dlog :: trace

text \<open>
  \<^verbatim>\<open>fmt.Sprintf\<close> with the verb \<^verbatim>\<open>%w\<close> and a string operand prints the operand as a
  bad verb.
\<close>

definition child_repo_failure :: "string \<Rightarrow> string \<Rightarrow> string" where
  "child_repo_failure name e = ''Failed to get child repo '' @ name @ '': %!w(string='' @ e @ '')''"

definition list_tags_failure :: "string \<Rightarrow> string \<Rightarrow> string" where
  "list_tags_failure name e =
     ''Failed to list tags for child repo '' @ name @ '': %!w(string='' @ e @ '')''"

definition initial_rstate :: "(string \<times> ManifestInfo) list \<Rightarrow> trace \<Rightarrow> rstate" where
  "initial_rstate ms log =
     \<lparr>todo = ms, pending = None, kept_size = 0, del = 0, tasks = [], errs = [], calls = log\<rparr>"

text \<open>
  \<^verbatim>\<open>for _, v := range errs\<close> visits the entries of a Go map in an order the language
  leaves open. The order is a parameter: \<open>pick_order picks xs\<close> takes, for each number
  of \<open>picks\<close> in turn, the entry of the rest of \<open>xs\<close> at that position (modulo the
  length of the rest); when the numbers run out the rest follows as it stands. Every
  result is a permutation of \<open>xs\<close> and every permutation is the result for some picks.
\<close>

function pick_order :: "nat list \<Rightarrow> 'a list \<Rightarrow> 'a list" where
  "pick_order picks xs =
     (case picks of
        [] \<Rightarrow> xs
      | k # rest \<Rightarrow>
          (if xs = [] then []
           else (let i = k mod length xs
                 in xs ! i # pick_order rest (take i xs @ drop (Suc i) xs))))"
  by pat_completeness auto
termination
  by (relation "measure (\<lambda>(picks, xs). length picks)") auto

text \<open>
  What is left open in the processing of one child repository: the schedule of its pool
  and the order in which \<^verbatim>\<open>range errs\<close> visits the recorded errors.
\<close>

type_synonym choice = "action list \<times> nat list"

text \<open>
  The body of the loop over \<^verbatim>\<open>repos.Children\<close> (lines 83 to 184) for the child \<open>r\<close>.
  \<open>None\<close> is a panic of the retention loop.
\<close>

definition clean_child :: "Registry \<Rightarrow> Globals \<Rightarrow> bool \<Rightarrow> string \<Rightarrow> choice \<Rightarrow> cstate \<Rightarrow> cstate option" where
  "clean_child reg g dry r ch cs =
     (let name = repo g @ ''/'' @ r in
      case gcr_NewRepository reg name of
        Some e \<Rightarrow> Some (cs\<lparr>errStrings := errStrings cs @ [child_repo_failure name e]\<rparr>)
      | None \<Rightarrow>
          (case gcr_List reg name of
             Inl e \<Rightarrow> Some (cs\<lparr>errStrings := errStrings cs @ [list_tags_failure name e]\<rparr>)
           | Inr tags \<Rightarrow>
               (case build_keeping g (cleaner cs) name (TagNames tags) of
                  None \<Rightarrow> None
                | Some keeping \<Rightarrow>
                    (let c = (cleaner cs)\<lparr>tagExcept := keeping\<rparr>;
                         s = run_repo reg c name keeping dry (fst ch)
                               (initial_rstate (Manifests tags) (dlog cs));
                         cs' = cs\<lparr>cleaner := c, dlog := calls s\<rparr>;
                         line = \<lparr>st_name = name, st_deleted = del s,
                                 st_kept = int (length (Manifests tags)) - del s,
                                 st_size = kept_size s, st_dry = dry\<rparr>
                     in Some (if \<not> dry then
                                (if length (errs s) > 0
                                 then cs'\<lparr>errStrings := errStrings cs' @
                                        map (\<lambda>ce. msg (snd ce)) (pick_order (snd ch) (errs s))\<rparr>
                                 else cs'\<lparr>status := status cs' @ [line]\<rparr>)
                              else cs'\<lparr>status := status cs' @ [line]\<rparr>)))))"

text \<open>
  The loop over the children; \<open>chs\<close> gives the choices for each child in turn (none
  left: the empty schedule, and the entries of \<^verbatim>\<open>errs\<close> as they stand).
\<close>

fun clean_children :: "Registry \<Rightarrow> Globals \<Rightarrow> bool \<Rightarrow> string list \<Rightarrow> choice list \<Rightarrow> cstate \<Rightarrow> cstate option" where
  "clean_children reg g dry [] chs cs = Some cs"
| "clean_children reg g dry (r # rs) chs cs =
     (case clean_child reg g dry r (case chs of [] \<Rightarrow> ([], []) | ch # _ \<Rightarrow> ch) cs of
        None \<Rightarrow> None
      | Some cs' \<Rightarrow> clean_children reg g dry rs (tl chs) cs')"

text \<open>
  The error \<^verbatim>\<open>Clean\<close> returns, before \<^verbatim>\<open>fmt.Errorf\<close> makes its text: one of the
  two early failures (the base repository and the wrapped error), \<^verbatim>\<open>fmt.Errorf\<close> of
  the only collected message (which it reads as a format), or the count with the messages
  joined by a comma and a space.
\<close>

datatype run_error =
  BaseRepoFailure string string
  | ListChildrenFailure string string
  | OneError string
  | ManyErrors nat string

fun join :: "string \<Rightarrow> string list \<Rightarrow> string" where
  "join sep [] = []"
| "join sep [x] = x"
| "join sep (x # y # ys) = x @ sep @ join sep (y # ys)"

definition final_error :: "string list \<Rightarrow> run_error option" where
  "final_error es =
     (if length es > 0 then
        (if length es = 1 then Some (OneError (es ! 0))
         else Some (ManyErrors (length es) (join '', '' es)))
      else None)"

text \<open>
  \<^verbatim>\<open>Clean\<close>. \<open>Clean_state\<close> gives an early failure or the state after the loop
  over the children, \<open>Clean\<close> the status lines and the error returned; \<open>None\<close> is a
  panic. The calls of \<^verbatim>\<open>log.Printf\<close> are left out.
\<close>

definition Clean_state :: "Registry \<Rightarrow> Globals \<Rightarrow> Cleaner \<Rightarrow> bool \<Rightarrow> choice list \<Rightarrow> (run_error + cstate) option" where
  "Clean_state reg g c dry scheds =
     (case gcr_NewRepository reg (repo g) of
        Some e \<Rightarrow> Some (Inl (BaseRepoFailure (repo g) e))
      | None \<Rightarrow>
          (case gcr_List reg (repo g) of
             Inl e \<Rightarrow> Some (Inl (ListChildrenFailure (repo g) e))
           | Inr repos \<Rightarrow>
               (case clean_children reg g dry (Children repos) scheds
                       \<lparr>cleaner = c, status = [], errStrings = [], dlog = []\<rparr> of
                  None \<Rightarrow> None
                | Some cs \<Rightarrow> Some (Inr cs))))"

definition Clean :: "Registry \<Rightarrow> Globals \<Rightarrow> Cleaner \<Rightarrow> bool \<Rightarrow> choice list \<Rightarrow> (StatusLine list \<times> run_error option) option" where
  "Clean reg g c dry scheds =
     (case Clean_state reg g c dry scheds of
        None \<Rightarrow> None
      | Some (Inl e) \<Rightarrow> Some ([], Some e)
      | Some (Inr cs) \<Rightarrow> Some (status cs, final_error (errStrings cs)))"

text \<open>
  Whether the key \<open>k\<close> is in the Keep Set that lines 107 to 124 build for the
  repository \<open>name\<close>.
\<close>

definition keep_set_has :: "Globals \<Rightarrow> Cleaner \<Rightarrow> string \<Rightarrow> string list \<Rightarrow> string \<Rightarrow> bool" where
  "keep_set_has g c name tags k =
     (case build_keeping g c name tags of None \<Rightarrow> False | Some keeping \<Rightarrow> lookup keeping k)"

section \<open>Notions used in the properties of the pool\<close>

text \<open>The points at which the units of a state stand, in the order of submission.\<close>

definition pcs :: "rstate \<Rightarrow> tstate list" where
  "pcs s = map snd (tasks s)"

text \<open>A unit has returned when it stands at one of the three ends of the closure.\<close>

fun returned :: "tstate \<Rightarrow> bool" where
  "returned Skipped = True"
| "returned (Recorded e) = True"
| "returned (Counted r) = True"
| "returned p = False"

text \<open>
  A unit ran when it went past the test of \<^verbatim>\<open>errs\<close>: it calls, or has called,
  \<^verbatim>\<open>deleteOne\<close>.
\<close>

fun ran :: "tstate \<Rightarrow> bool" where
  "ran Queued = False"
| "ran Taken = False"
| "ran Skipped = False"
| "ran p = True"

text \<open>
  An error is recorded and unit \<open>i\<close> has not passed the test of \<^verbatim>\<open>errs\<close> (it may
  not even be submitted yet), or has returned at it.
\<close>

definition suppressed :: "nat \<Rightarrow> rstate \<Rightarrow> bool" where
  "suppressed i s = (errs s \<noteq> [] \<and> (i < length (tasks s) \<longrightarrow> pcs s ! i = Queued \<or> pcs s ! i = Taken \<or> pcs s ! i = Skipped))"

text \<open>Unit \<open>i\<close> is submitted and ran.\<close>

definition under_way :: "nat \<Rightarrow> rstate \<Rightarrow> bool" where
  "under_way i s = (i < length (tasks s) \<and> ran (pcs s ! i))"

text \<open>The units that have not begun are the last ones submitted.\<close>

definition fifo :: "rstate \<Rightarrow> bool" where
  "fifo s = (\<forall>i j. i < j \<and> j < length (tasks s) \<and> pcs s ! i = Queued \<longrightarrow> pcs s ! j = Queued)"

text \<open>A bound on the steps a unit takes before it returns.\<close>

fun steps_left :: "tstate \<Rightarrow> nat" where
  "steps_left Queued = 5"
| "steps_left Taken = 4"
| "steps_left Calling = 3"
| "steps_left (Failed e) = 2"
| "steps_left (Counting r) = 1"
| "steps_left p = 0"

text \<open>The units that returned after the increment of \<^verbatim>\<open>del\<close>, and those that returned
  after storing their error.\<close>

fun counted :: "tstate \<Rightarrow> bool" where
  "counted (Counted r) = True"
| "counted p = False"

fun recorded :: "tstate \<Rightarrow> bool" where
  "recorded (Recorded e) = True"
| "recorded p = False"

text \<open>The error \<^verbatim>\<open>deleteOne\<close> returned to a unit, if it returned one.\<close>

fun failure_of :: "tstate \<Rightarrow> derr option" where
  "failure_of (Failed e) = Some e"
| "failure_of (Counting r) = r"
| "failure_of (Recorded e) = Some e"
| "failure_of (Counted r) = r"
| "failure_of p = None"

text \<open>
  Two invariants of a real run. The counter \<^verbatim>\<open>del\<close> is the number of units that
  returned after the increment. The keys of \<^verbatim>\<open>errs\<close> are distinct, each entry is the
  error of a unit that returned after storing it, under its cause; every failure that was
  looked up has its cause among the keys; and a unit returned at the test of \<^verbatim>\<open>errs\<close>
  only if an error is recorded.
\<close>

definition counts_ok :: "rstate \<Rightarrow> bool" where
  "counts_ok s = (del s = int (length (filter counted (pcs s))))"

definition errs_ok :: "rstate \<Rightarrow> bool" where
  "errs_ok s =
     (distinct (map fst (errs s))
      \<and> (\<forall>ce\<in>set (errs s). cause (snd ce) = fst ce \<and> Recorded (snd ce) \<in> set (pcs s))
      \<and> length (filter recorded (pcs s)) = length (errs s)
      \<and> (\<forall>p\<in>set (pcs s). \<forall>e. failure_of p = Some e \<and> p \<noteq> Failed e \<longrightarrow> cause e \<in> fst ` set (errs s))
      \<and> (Skipped \<in> set (pcs s) \<longrightarrow> errs s \<noteq> []))"

text \<open>
  The counts as the specification words them: over the manifests in turn, the number of
  those judged deletable and the size of the others, from the deletion decision alone.
\<close>

fun tally :: "Cleaner \<Rightarrow> string \<Rightarrow> boolmap \<Rightarrow> (string \<times> ManifestInfo) list \<Rightarrow> int \<times> int64 \<Rightarrow> int \<times> int64" where
  "tally c name keeping [] acc = acc"
| "tally c name keeping (km # rest) acc =
     (let verdict = shouldDelete c name (snd km) keeping (snd acc)
      in tally c name keeping rest (if fst verdict then fst acc + 1 else fst acc, snd verdict))"

text \<open>
  The manifests judged deletable so far in a real run (submitted, or in hand), and the
  invariants that tie the state of a dry and of a real run to \<open>tally\<close>.
\<close>

definition submitted :: "rstate \<Rightarrow> int" where
  "submitted s = int (length (tasks s)) + (if pending s = None then 0 else 1)"


definition real_inv :: "Cleaner \<Rightarrow> string \<Rightarrow> boolmap \<Rightarrow> int \<times> int64 \<Rightarrow> rstate \<Rightarrow> bool" where
  "real_inv c name keeping tot s =
     (tally c name keeping (todo s) (submitted s, kept_size s) = tot)"

text \<open>
  The state in which \<^verbatim>\<open>Clean\<close> leaves the loop and the pool of the child \<open>r\<close>, and
  the status line it makes of it, as \<open>clean_child\<close> computes them.
\<close>

definition child_pool_state :: "Registry \<Rightarrow> Globals \<Rightarrow> bool \<Rightarrow> string \<Rightarrow> choice \<Rightarrow> cstate \<Rightarrow> boolmap \<Rightarrow> TagsListing \<Rightarrow> rstate" where
  "child_pool_state reg g dry r ch cs keeping tags =
     run_repo reg ((cleaner cs)\<lparr>tagExcept := keeping\<rparr>) (repo g @ ''/'' @ r) keeping dry (fst ch)
       (initial_rstate (Manifests tags) (dlog cs))"

definition child_line :: "Globals \<Rightarrow> bool \<Rightarrow> string \<Rightarrow> TagsListing \<Rightarrow> rstate \<Rightarrow> StatusLine" where
  "child_line g dry r tags s =
     \<lparr>st_name = repo g @ ''/'' @ r, st_deleted = del s,
      st_kept = int (length (Manifests tags)) - del s, st_size = kept_size s, st_dry = dry\<rparr>"

text \<open>
  Notions that tie the units to the trace of \<^verbatim>\<open>deleteOne\<close>. A digest reference of the
  repository \<open>name\<close> starts with \<open>name\<close> and \<^verbatim>\<open>@\<close>; the references of the tags
  start with \<open>name\<close> and a colon, so they are never digest references. A unit has
  called \<^verbatim>\<open>deleteOne\<close> when it stands past the call. \<open>unit_calls\<close> lists, for the
  units that have called, the reference with the answer the unit holds; \<open>new_calls\<close> is
  what the processing of the repository added to the trace it started from, and
  \<open>digest_calls\<close> the calls for digest references in it.
\<close>

definition is_digest_ref :: "string \<Rightarrow> string \<Rightarrow> bool" where
  "is_digest_ref name x = (take (Suc (length name)) x = name @ ''@'')"

fun called :: "tstate \<Rightarrow> bool" where
  "called (Failed e) = True"
| "called (Counting r) = True"
| "called (Recorded e) = True"
| "called (Counted r) = True"
| "called p = False"

definition unit_calls :: "rstate \<Rightarrow> trace" where
  "unit_calls s = map (\<lambda>t. (fst t, failure_of (snd t))) (filter (\<lambda>t. called (snd t)) (tasks s))"

definition new_calls :: "trace \<Rightarrow> rstate \<Rightarrow> trace" where
  "new_calls log s = drop (length log) (calls s)"

definition digest_calls :: "string \<Rightarrow> trace \<Rightarrow> rstate \<Rightarrow> trace" where
  "digest_calls name log s = filter (\<lambda>e. is_digest_ref name (fst e)) (new_calls log s)"

text \<open>
  Every entry of the trace from position \<open>n\<close> on holds what \<^verbatim>\<open>deleteOne\<close> returns for
  its reference after the calls before it.
\<close>

definition sound_from :: "Registry \<Rightarrow> nat \<Rightarrow> trace \<Rightarrow> bool" where
  "sound_from reg n tr =
     (\<forall>k. n \<le> k \<and> k < length tr \<longrightarrow>
        snd (tr ! k) = deleteOne_result reg (fst (tr ! k)) (take k tr))"

text \<open>
  The references still to come: that of the manifest in hand and those of the manifests
  not yet visited.
\<close>

definition pending_refs :: "string \<Rightarrow> rstate \<Rightarrow> string list" where
  "pending_refs name s =
     (case pending s of None \<Rightarrow> [] | Some (tgs, ref) \<Rightarrow> [ref])
     @ map (\<lambda>km. name @ ''@'' @ fst km) (todo s)"

text \<open>
  An invariant of a real run that started from the trace \<open>log\<close>: the trace only grows
  and is sound from there on; the digest calls in the new part are, counted with their
  answers, the calls of the units that have called; every reference submitted or in hand
  is a digest reference; and the references submitted and still to come are distinct.
\<close>

definition trace_inv :: "Registry \<Rightarrow> string \<Rightarrow> trace \<Rightarrow> rstate \<Rightarrow> bool" where
  "trace_inv reg name log s =
     (take (length log) (calls s) = log
      \<and> sound_from reg (length log) (calls s)
      \<and> mset (digest_calls name log s) = mset (unit_calls s)
      \<and> (\<forall>x\<in>set (map fst (tasks s) @ pending_refs name s). is_digest_ref name x))"

definition refs_distinct :: "string \<Rightarrow> rstate \<Rightarrow> bool" where
  "refs_distinct name s = distinct (map fst (tasks s) @ pending_refs name s)"



section \<open>Example inputs\<close>

text \<open>
  A cleaner with one repository exception, one tag exception and the global tag exception
  \<^verbatim>\<open>latest\<close>, and the package variables of a run that keeps two tags.
\<close>

definition ex_cleaner :: Cleaner where
  "ex_cleaner = \<lparr>concurrency = 2, repoExcept = [''gcr.io/pr/db'' \<mapsto> True],
     tagExcept = [''gcr.io/pr/app:a'' \<mapsto> True], globalTagExcept = [''latest'' \<mapsto> True]\<rparr>"

definition ex_globals :: Globals where
  "ex_globals = \<lparr>keep = 2, repo = ''gcr.io/pr''\<rparr>"

text \<open>
  A registry whose every deletion is refused, with one child repository \<^verbatim>\<open>web\<close> of
  three untagged manifests and one tagged \<^verbatim>\<open>t1\<close>; a cleaner without exceptions and a
  pool of two; and a schedule in which the first two units pass the test of \<^verbatim>\<open>errs\<close>
  together and the first one records its failure.
\<close>

definition denied_registry :: Registry where
  "denied_registry = \<lparr>
     gcr_NewRepository = (\<lambda>n. None),
     gcr_List = (\<lambda>n. if n = ''gcr.io/pr'' then Inr \<lparr>Children = [''web''], Manifests = [], TagNames = []\<rparr>
                    else if n = ''gcr.io/pr/web'' then
                      Inr \<lparr>Children = [],
                           Manifests = [(''sha256:aaaaaaaaaaaaaaaaaaaaaaaaaaaaaaaaaaaaaaaaaaaaaaaaaaaaaaaaaaaaaaaa'', \<lparr>Size = 10, Tags = []\<rparr>),
                                        (''sha256:bbbbbbbbbbbbbbbbbbbbbbbbbbbbbbbbbbbbbbbbbbbbbbbbbbbbbbbbbbbbbbbb'', \<lparr>Size = 20, Tags = []\<rparr>),
                                        (''sha256:cccccccccccccccccccccccccccccccccccccccccccccccccccccccccccccccc'', \<lparr>Size = 30, Tags = []\<rparr>),
                                        (''sha256:dddddddddddddddddddddddddddddddddddddddddddddddddddddddddddddddd'', \<lparr>Size = 40, Tags = [''t1'']\<rparr>)],
                           TagNames = [''t1'']\<rparr>
                    else Inl ''not found''),
     gcr_ParseReference = Inr,
     gcr_Delete = (\<lambda>log n. Some ''permission denied'')\<rparr>"

definition plain_cleaner :: Cleaner where
  "plain_cleaner = \<lparr>concurrency = 2, repoExcept = Map.empty, tagExcept = Map.empty,
     globalTagExcept = Map.empty\<rparr>"

definition web_manifests :: "(string \<times> ManifestInfo) list" where
  "web_manifests = [(''sha256:aaaaaaaaaaaaaaaaaaaaaaaaaaaaaaaaaaaaaaaaaaaaaaaaaaaaaaaaaaaaaaaa'', \<lparr>Size = 10, Tags = []\<rparr>), (''sha256:bbbbbbbbbbbbbbbbbbbbbbbbbbbbbbbbbbbbbbbbbbbbbbbbbbbbbbbbbbbbbbbb'', \<lparr>Size = 20, Tags = []\<rparr>),
     (''sha256:cccccccccccccccccccccccccccccccccccccccccccccccccccccccccccccccc'', \<lparr>Size = 30, Tags = []\<rparr>), (''sha256:dddddddddddddddddddddddddddddddddddddddddddddddddddddddddddddddd'', \<lparr>Size = 40, Tags = [''t1'']\<rparr>)]"

definition web_keeping :: boolmap where
  "web_keeping = [''gcr.io/pr/web:t1'' \<mapsto> True]"

definition first_failure :: "action list" where
  "first_failure = [Main, Main, Main, Main, Worker 0, Worker 1, Worker 0, Worker 1,
     Worker 0, Worker 0]"

text \<open>
  The listing of \<^verbatim>\<open>web\<close>, a registry that accepts every deletion, a schedule in which
  two units fail with the same cause, and the state at the start of \<^verbatim>\<open>Clean\<close>.
\<close>

definition web_listing :: TagsListing where
  "web_listing = \<lparr>Children = [], Manifests = web_manifests, TagNames = [''t1'']\<rparr>"

definition ok_registry :: Registry where
  "ok_registry = denied_registry\<lparr>gcr_Delete := (\<lambda>log n. None)\<rparr>"

definition both_fail :: "action list" where
  "both_fail = [Main, Main, Main, Main, Worker 0, Worker 1, Worker 0, Worker 1,
     Worker 0, Worker 1, Worker 0, Worker 1, Worker 1]"

definition start_state :: cstate where
  "start_state = \<lparr>cleaner = plain_cleaner, status = [], errStrings = [], dlog = []\<rparr>"







section \<open>Properties of the retention loop\<close>

declare keep_loop.simps [simp del]

lemma keep_loop_exit: "t < control \<Longrightarrow> keep_loop gte name tags t control te = Some te"
  by (simp add: keep_loop.simps [of gte name tags t control te])

lemma keep_loop_step:
  "control \<le> t \<Longrightarrow> 0 \<le> t \<Longrightarrow> t < int (length tags) \<Longrightarrow>
   keep_loop gte name tags t control te =
   keep_loop gte name tags (t - 1)
     (if lookup gte (tags ! nat t) \<or> lookup te (tagName_of name (tags ! nat t))
      then max_int (control - 1) 0 else control)
     (te(tagName_of name (tags ! nat t) \<mapsto> True))"
  by (subst keep_loop.simps) (simp add: Let_def)

lemma keep_loop_Some:
  "0 \<le> control \<Longrightarrow> t < int (length tags) \<Longrightarrow> \<exists>te'. keep_loop gte name tags t control te = Some te'"
proof (induction "nat (t + 1)" arbitrary: t control te)
  case 0
  then have "t < control" by simp
  then show ?case by (simp add: keep_loop_exit)
next
  case (Suc n)
  show ?case
  proof (cases "control \<le> t")
    case False
    then show ?thesis by (simp add: keep_loop_exit)
  next
    case True
    define c' where "c' = (if lookup gte (tags ! nat t) \<or> lookup te (tagName_of name (tags ! nat t))
      then max_int (control - 1) 0 else control)"
    have c': "0 \<le> c'" using Suc.prems by (simp add: c'_def max_int_def)
    have n: "n = nat (t - 1 + 1)" using Suc.hyps(2) by simp
    have "t - 1 < int (length tags)" using Suc.prems by simp
    from Suc.hyps(1) [OF n c' this]
    obtain te' where "keep_loop gte name tags (t - 1) c' (te(tagName_of name (tags ! nat t) \<mapsto> True)) = Some te'"
      by blast
    moreover have "0 \<le> t" using True Suc.prems by simp
    ultimately show ?thesis
      using True Suc.prems(2) by (simp add: keep_loop_step c'_def)
  qed
qed

lemma keep_loop_result:
  "0 \<le> control \<Longrightarrow> t < int (length tags) \<Longrightarrow> keep_loop gte name tags t control te = Some te' \<Longrightarrow>
   (\<forall>i. control \<le> i \<and> i \<le> t \<longrightarrow> te' (tagName_of name (tags ! nat i)) = Some True) \<and>
   (\<forall>k. te' k = te k \<or> (te' k = Some True \<and> (\<exists>i. 0 \<le> i \<and> i \<le> t \<and> k = tagName_of name (tags ! nat i))))"
proof (induction "nat (t + 1)" arbitrary: t control te)
  case 0
  then have lt: "t < control" by simp
  with 0 have "te' = te" by (simp add: keep_loop_exit)
  moreover have "\<not> (control \<le> i \<and> i \<le> t)" for i using lt by arith
  ultimately show ?case by blast
next
  case (Suc n)
  show ?case
  proof (cases "control \<le> t")
    case False
    with Suc.prems have "te' = te" by (simp add: keep_loop_exit)
    moreover have "\<not> (control \<le> i \<and> i \<le> t)" for i using False by arith
    ultimately show ?thesis by blast
  next
    case True
    define tn where "tn = tagName_of name (tags ! nat t)"
    define c' where "c' = (if lookup gte (tags ! nat t) \<or> lookup te tn
      then max_int (control - 1) 0 else control)"
    have c': "0 \<le> c'" "c' \<le> control" using Suc.prems by (simp_all add: c'_def max_int_def)
    have n: "n = nat (t - 1 + 1)" using Suc.hyps(2) by simp
    have lt: "t - 1 < int (length tags)" using Suc.prems by simp
    have t0: "0 \<le> t" using True Suc.prems by simp
    have eq: "keep_loop gte name tags (t - 1) c' (te(tn \<mapsto> True)) = Some te'"
      using Suc.prems(3) True t0 Suc.prems(2) by (simp add: keep_loop_step c'_def tn_def)
    note IH = Suc.hyps(1) [OF n c'(1) lt eq]
    have mono: "te' tn = Some True"
      using IH by (metis fun_upd_same)
    have A: "te' (tagName_of name (tags ! nat i)) = Some True" if "control \<le> i" "i \<le> t" for i
    proof (cases "i = t")
      case True
      then show ?thesis using mono by (simp add: tn_def)
    next
      case False
      then have "c' \<le> i \<and> i \<le> t - 1" using that c'(2) by simp
      then show ?thesis using IH by blast
    qed
    have B: "te' k = te k \<or> (te' k = Some True \<and> (\<exists>i. 0 \<le> i \<and> i \<le> t \<and> k = tagName_of name (tags ! nat i)))" for k
    proof (cases "k = tn")
      case True
      then show ?thesis using mono t0 by (auto simp: tn_def)
    next
      case False
      from IH have "te' k = (te(tn \<mapsto> True)) k \<or> (te' k = Some True \<and> (\<exists>i. 0 \<le> i \<and> i \<le> t - 1 \<and> k = tagName_of name (tags ! nat i)))"
        by blast
      then show ?thesis using False by (auto intro: exI)
    qed
    show ?thesis using A B by blast
  qed
qed

lemma sint_of_nat_small: "n < 2 ^ 63 \<Longrightarrow> sint (word_of_nat n :: 64 word) = int n"
proof -
  assume n: "n < 2 ^ 63"
  have "sint (word_of_nat n :: 64 word) = sint (word_of_int (int n) :: 64 word)"
    by (simp only: of_int_of_nat_eq)
  also have "\<dots> = signed_take_bit 63 (int n)"
    unfolding sint_sbintrunc' by simp
  also have "\<dots> = int n"
  proof (rule signed_take_bit_int_eq_self)
    show "- (2 ^ 63) \<le> int n" by simp
    have "int n < int (2 ^ 63)" using n by (simp only: of_nat_less_iff)
    then show "int n < 2 ^ 63" by simp
  qed
  finally show ?thesis .
qed

lemma initial_control_le:
  assumes "n < 2 ^ 63"
  shows "max_int (sint (word_of_nat n - (k :: 64 word))) 0 \<le> max_int (int n - sint k) 0"
proof -
  have a: "sint (word_of_nat n :: 64 word) = int n" using assms by (rule sint_of_nat_small)
  have k: "- (2 ^ 63) \<le> sint k" "sint k < 2 ^ 63"
    using sint_ge [of k] sint_lt [of k] by simp_all
  have eq: "sint (word_of_nat n - k) = signed_take_bit 63 (int n - sint k)"
    by (simp add: sint_word_diff a)
  show ?thesis
  proof (cases "int n - sint k < 2 ^ 63")
    case True
    have "- (2 ^ 63) \<le> int n - sint k" using k by simp
    then have "signed_take_bit 63 (int n - sint k) = int n - sint k"
      using True by (simp add: signed_take_bit_int_eq_self)
    then show ?thesis by (simp add: eq)
  next
    case False
    then have ge: "2 ^ 63 \<le> int n - sint k" by simp
    have "signed_take_bit 63 (int n - sint k) \<le> int n - sint k - 2 ^ Suc 63"
      using ge by (rule signed_take_bit_int_less_eq)
    moreover have "int n - sint k - 2 ^ Suc 63 < 0" using assms k by simp
    ultimately show ?thesis by (simp add: eq max_int_def)
  qed
qed
section \<open>Properties of the deletion decision\<close>

lemma shouldDelete_tags_fst:
  "fst (shouldDelete_tags n m keeping tot ts) = (\<forall>t\<in>set ts. \<not> lookup keeping (tagName_of n t))"
  by (induction ts) auto

text \<open>
  Claim C1. \<^verbatim>\<open>shouldDelete\<close> answers true exactly when the manifest has no tag, or has
  tags and none of their qualified names \<^verbatim>\<open>repo:tag\<close> is in the Keep Set; one kept tag
  retains the whole manifest. The receiver's repository exceptions play no part: an
  untagged manifest of an excepted repository is deletable.
\<close>

theorem shouldDelete_decision:
  "(fst (shouldDelete c n m keeping tot) =
      (Tags m = [] \<or> (Tags m \<noteq> [] \<and> (\<forall>t\<in>set (Tags m). \<not> lookup keeping (tagName_of n t)))))
   \<and> (lookup (repoExcept c) n \<and> Tags m = [] \<longrightarrow> fst (shouldDelete c n m keeping tot))"
  by (auto simp: shouldDelete_def shouldDelete_tags_fst)

theorem shouldDelete_decision_witness:
  "fst (shouldDelete ex_cleaner ''gcr.io/pr/db'' \<lparr>Size = 7, Tags = []\<rparr> (tagExcept ex_cleaner) 0)
   \<and> \<not> fst (shouldDelete ex_cleaner ''gcr.io/pr/app'' \<lparr>Size = 7, Tags = [''a'', ''b'']\<rparr> (tagExcept ex_cleaner) 0)
   \<and> fst (shouldDelete ex_cleaner ''gcr.io/pr/app'' \<lparr>Size = 7, Tags = [''b'', ''c'']\<rparr> (tagExcept ex_cleaner) 0)"
  using shouldDelete_decision [of ex_cleaner "''gcr.io/pr/db''" "\<lparr>Size = 7, Tags = []\<rparr>" "tagExcept ex_cleaner" 0]
    shouldDelete_decision [of ex_cleaner "''gcr.io/pr/app''" "\<lparr>Size = 7, Tags = [''a'', ''b'']\<rparr>" "tagExcept ex_cleaner" 0]
    shouldDelete_decision [of ex_cleaner "''gcr.io/pr/app''" "\<lparr>Size = 7, Tags = [''b'', ''c'']\<rparr>" "tagExcept ex_cleaner" 0]
  by (simp add: ex_cleaner_def lookup_def tagName_of_def)

section \<open>The Keep Set of a repository without exception\<close>

text \<open>
  Claim C2. For a repository outside the repository exceptions, the retention loop returns
  (no index leaves the slice) and the Keep Set it builds holds the qualified name of each
  of the last \<open>min keepCount tagCount\<close> tags of the ordered tag list.
\<close>

theorem keep_set_top_tags:
  assumes "\<not> lookup (repoExcept c) name" and "length tags < 2 ^ 63"
  shows "\<exists>keeping. build_keeping g c name tags = Some keeping \<and>
     (\<forall>i. length tags - nat (min (sint (keep g)) (int (length tags))) \<le> i \<and> i < length tags
        \<longrightarrow> lookup keeping (tagName_of name (tags ! i)))"
proof -
  define c0 where "c0 = initial_control g tags"
  have c0: "0 \<le> c0" by (simp add: c0_def initial_control_def max_int_def)
  have le: "c0 \<le> max_int (int (length tags) - sint (keep g)) 0"
    unfolding c0_def initial_control_def using assms(2) by (rule initial_control_le)
  have bk: "build_keeping g c name tags =
      keep_loop (globalTagExcept c) name tags (int (length tags) - 1) c0 (tagExcept c)"
    using assms(1) by (simp add: build_keeping_def c0_def Let_def)
  have lt: "int (length tags) - 1 < int (length tags)" by simp
  from keep_loop_Some [OF c0 lt] obtain keeping where
    k: "keep_loop (globalTagExcept c) name tags (int (length tags) - 1) c0 (tagExcept c) = Some keeping"
    by blast
  note res = keep_loop_result [OF c0 lt k]
  have "lookup keeping (tagName_of name (tags ! i))"
    if i: "length tags - nat (min (sint (keep g)) (int (length tags))) \<le> i" "i < length tags" for i
  proof -
    have "c0 \<le> int i" using le i by (simp add: max_int_def min_def split: if_splits) 
    moreover have "int i \<le> int (length tags) - 1" using i(2) by simp
    ultimately have "keeping (tagName_of name (tags ! nat (int i))) = Some True"
      using res by blast
    then show ?thesis by (simp add: lookup_def)
  qed
  then show ?thesis using bk k by simp
qed

theorem keep_set_top_tags_witness:
  "\<exists>keeping. build_keeping ex_globals ex_cleaner ''gcr.io/pr/web'' [''t1'', ''t2'', ''t3''] = Some keeping
     \<and> lookup keeping ''gcr.io/pr/web:t2'' \<and> lookup keeping ''gcr.io/pr/web:t3''"
proof -
  have h1: "\<not> lookup (repoExcept ex_cleaner) ''gcr.io/pr/web''"
    by (simp add: ex_cleaner_def lookup_def)
  have h2: "length [''t1'', ''t2'', ''t3''] < (2::nat) ^ 63" by simp
  from keep_set_top_tags [OF h1 h2, of ex_globals] obtain keeping where
    k: "build_keeping ex_globals ex_cleaner ''gcr.io/pr/web'' [''t1'', ''t2'', ''t3''] = Some keeping"
    and a: "\<And>i. length [''t1'', ''t2'', ''t3''] - nat (min (sint (keep ex_globals)) (int (length [''t1'', ''t2'', ''t3'']))) \<le> i \<and> i < length [''t1'', ''t2'', ''t3'']
        \<Longrightarrow> lookup keeping (tagName_of ''gcr.io/pr/web'' ([''t1'', ''t2'', ''t3''] ! i))"
    by blast
  have "lookup keeping ''gcr.io/pr/web:t2''" using a [of 1] by (simp add: ex_globals_def tagName_of_def)
  moreover have "lookup keeping ''gcr.io/pr/web:t3''" using a [of 2] by (simp add: ex_globals_def tagName_of_def)
  ultimately show ?thesis using k by blast
qed


section \<open>Global tag exceptions\<close>

lemma initial_control_example: "initial_control ex_globals [''latest'', ''v1'', ''v2''] = 1"
  by (simp add: initial_control_def ex_globals_def max_int_def)

text \<open>
  Claim C3. A tag whose bare name is a global tag exception should be in the Keep Set of
  every repository, wherever it stands in the tag list. The loop consults the global tag
  exceptions only for the tags it walks: with \<^verbatim>\<open>keep = 2\<close> and the ascending tag
  list \<^verbatim>\<open>latest, v1, v2\<close> it stops above \<^verbatim>\<open>latest\<close>, which is then not kept, and the
  manifest that carries only this tag is deletable.
\<close>

theorem global_tag_below_control_not_kept:
  "lookup (globalTagExcept ex_cleaner) ''latest''
   \<and> build_keeping ex_globals ex_cleaner ''gcr.io/pr/web'' [''latest'', ''v1'', ''v2''] =
       Some ((tagExcept ex_cleaner)(''gcr.io/pr/web:v2'' \<mapsto> True, ''gcr.io/pr/web:v1'' \<mapsto> True))
   \<and> \<not> keep_set_has ex_globals ex_cleaner ''gcr.io/pr/web'' [''latest'', ''v1'', ''v2''] ''gcr.io/pr/web:latest''
   \<and> fst (shouldDelete ex_cleaner ''gcr.io/pr/web'' \<lparr>Size = 7, Tags = [''latest'']\<rparr>
         ((tagExcept ex_cleaner)(''gcr.io/pr/web:v2'' \<mapsto> True, ''gcr.io/pr/web:v1'' \<mapsto> True)) 0)"
  by (simp add: keep_set_has_def build_keeping_def initial_control_example ex_cleaner_def lookup_def
      keep_loop.simps tagName_of_def max_int_def shouldDelete_def)

section \<open>The Keep Set of an excepted repository\<close>

text \<open>
  Claim C4 as stated: in an excepted repository the Keep Set holds the exception matches
  and nothing else. It fails: with \<^verbatim>\<open>control = 0\<close> the loop walks the whole tag list, so
  the tag \<^verbatim>\<open>t1\<close>, which no exception names, is kept.
\<close>

theorem exception_repo_keeps_unmatched_tag:
  "lookup (repoExcept ex_cleaner) ''gcr.io/pr/db''
   \<and> keep_set_has ex_globals ex_cleaner ''gcr.io/pr/db'' [''t1''] ''gcr.io/pr/db:t1''
   \<and> \<not> lookup (tagExcept ex_cleaner) ''gcr.io/pr/db:t1''
   \<and> \<not> lookup (globalTagExcept ex_cleaner) ''t1''"
  by (simp add: keep_set_has_def build_keeping_def ex_cleaner_def lookup_def
      keep_loop.simps tagName_of_def max_int_def)

text \<open>
  Claim C4, amended. For a repository in the repository exceptions the loop starts with
  \<^verbatim>\<open>control = 0\<close> and returns; a key is in the resulting Keep Set exactly when it was in
  the tag exception map (file tag exceptions and in-use entries) before, or is the qualified
  name of a tag of the repository. So no manifest that carries a tag of the repository's
  tag list is deletable.
\<close>

theorem exception_repo_keep_set:
  assumes "lookup (repoExcept c) name"
  shows "build_keeping g c name tags =
           keep_loop (globalTagExcept c) name tags (int (length tags) - 1) 0 (tagExcept c)
     \<and> (\<exists>keeping. build_keeping g c name tags = Some keeping \<and>
          (\<forall>k. lookup keeping k = (lookup (tagExcept c) k \<or> k \<in> tagName_of name ` set tags)) \<and>
          (\<forall>m tot. set (Tags m) \<inter> set tags \<noteq> {} \<longrightarrow> \<not> fst (shouldDelete c name m keeping tot)))"
proof -
  have bk: "build_keeping g c name tags =
      keep_loop (globalTagExcept c) name tags (int (length tags) - 1) 0 (tagExcept c)"
    using assms by (simp add: build_keeping_def Let_def)
  have c0: "(0::int) \<le> 0" by simp
  have lt: "int (length tags) - 1 < int (length tags)" by simp
  from keep_loop_Some [OF c0 lt] obtain keeping where
    k: "keep_loop (globalTagExcept c) name tags (int (length tags) - 1) 0 (tagExcept c) = Some keeping"
    by blast
  note res = keep_loop_result [OF c0 lt k]
  have "lookup keeping k = (lookup (tagExcept c) k \<or> k \<in> tagName_of name ` set tags)" for k
  proof (cases "k \<in> tagName_of name ` set tags")
    case True
    then obtain i where i: "i < length tags" "k = tagName_of name (tags ! i)"
      by (auto simp: in_set_conv_nth)
    have "0 \<le> int i \<and> int i \<le> int (length tags) - 1" using i(1) by simp
    then have "keeping (tagName_of name (tags ! nat (int i))) = Some True" using res by blast
    then show ?thesis using True i by (simp add: lookup_def)
  next
    case False
    have "keeping k = tagExcept c k"
    proof -
      from res have "keeping k = tagExcept c k \<or>
         (keeping k = Some True \<and> (\<exists>i\<ge>0. i \<le> int (length tags) - 1 \<and> k = tagName_of name (tags ! nat i)))"
        by blast
      moreover have "k \<noteq> tagName_of name (tags ! nat i)" if "0 \<le> i" "i \<le> int (length tags) - 1" for i
      proof -
        have "nat i < length tags" using that by simp
        then have "tagName_of name (tags ! nat i) \<in> tagName_of name ` set tags" by simp
        then show ?thesis using False by blast
      qed
      ultimately show ?thesis by blast
    qed
    then show ?thesis using False by (simp add: lookup_def)
  qed
  note keys = this
  have "\<not> fst (shouldDelete c name m keeping tot)" if "set (Tags m) \<inter> set tags \<noteq> {}" for m tot
  proof -
    from that obtain t where t: "t \<in> set (Tags m)" "t \<in> set tags" by blast
    then have "lookup keeping (tagName_of name t)" using keys by blast
    then have "\<not> fst (shouldDelete_tags name m keeping tot (Tags m))"
      using t(1) by (auto simp: shouldDelete_tags_fst)
    moreover have "Tags m \<noteq> []" using t(1) by auto
    ultimately show ?thesis by (simp add: shouldDelete_def)
  qed
  then show ?thesis using bk k keys by simp
qed

theorem exception_repo_keep_set_witness:
  "lookup (repoExcept ex_cleaner) ''gcr.io/pr/db''
   \<and> (\<exists>keeping. build_keeping ex_globals ex_cleaner ''gcr.io/pr/db'' [''t1'', ''t2''] = Some keeping
        \<and> lookup keeping ''gcr.io/pr/db:t1'' \<and> lookup keeping ''gcr.io/pr/db:t2''
        \<and> lookup keeping ''gcr.io/pr/app:a'' \<and> \<not> lookup keeping ''gcr.io/pr/db:t3'')"
proof -
  have h: "lookup (repoExcept ex_cleaner) ''gcr.io/pr/db''"
    by (simp add: ex_cleaner_def lookup_def)
  from exception_repo_keep_set [OF h, of ex_globals "[''t1'', ''t2'']"] obtain keeping where
    k: "build_keeping ex_globals ex_cleaner ''gcr.io/pr/db'' [''t1'', ''t2''] = Some keeping"
    and a: "\<And>k. lookup keeping k =
        (lookup (tagExcept ex_cleaner) k \<or> k \<in> tagName_of ''gcr.io/pr/db'' ` set [''t1'', ''t2''])"
    by blast
  have "lookup keeping ''gcr.io/pr/db:t1''" "lookup keeping ''gcr.io/pr/db:t2''"
    "lookup keeping ''gcr.io/pr/app:a''" "\<not> lookup keeping ''gcr.io/pr/db:t3''"
    unfolding a by (simp_all add: tagName_of_def ex_cleaner_def lookup_def)
  then show ?thesis using h k by blast
qed

section \<open>Steps of the main loop and of the units\<close>

lemma pcs_set_task [simp]: "pcs (set_task i p s) = (pcs s)[i := p]"
  by (simp add: pcs_def set_task_def map_update)

lemma set_task_fields [simp]:
  "todo (set_task i p s) = todo s" "pending (set_task i p s) = pending s"
  "kept_size (set_task i p s) = kept_size s" "del (set_task i p s) = del s"
  "errs (set_task i p s) = errs s" "calls (set_task i p s) = calls s"
  "length (tasks (set_task i p s)) = length (tasks s)"
  by (simp_all add: set_task_def)

lemma set_task_refs [simp]: "map fst (tasks (set_task i p s)) = map fst (tasks s)"
proof (cases "i < length (tasks s)")
  case True
  then have "(map fst (tasks s))[i := fst (tasks s ! i)] = (map fst (tasks s))[i := map fst (tasks s) ! i]"
    by simp
  then show ?thesis by (simp add: set_task_def map_update)
next
  case False
  then have "length (tasks s) \<le> i" by simp
  then have "(tasks s)[i := (fst (tasks s ! i), p)] = tasks s" by (rule list_update_beyond)
  then show ?thesis by (simp add: set_task_def)
qed

lemma length_pcs [simp]: "length (pcs s) = length (tasks s)"
  by (simp add: pcs_def)

lemma pcs_nth: "i < length (tasks s) \<Longrightarrow> pcs s ! i = snd (tasks s ! i)"
  by (simp add: pcs_def)

lemma pcs_update_simps [simp]:
  "pcs (s\<lparr>calls := x\<rparr>) = pcs s" "pcs (s\<lparr>errs := y\<rparr>) = pcs s" "pcs (s\<lparr>del := z\<rparr>) = pcs s"
  "pcs (s\<lparr>todo := u\<rparr>) = pcs s" "pcs (s\<lparr>pending := v\<rparr>) = pcs s" "pcs (s\<lparr>kept_size := w\<rparr>) = pcs s"
  by (simp_all add: pcs_def)

lemma worker_step_out: "\<not> i < length (tasks s) \<Longrightarrow> worker_step reg n i s = s"
  by (simp add: worker_step_def)

lemma worker_step_Queued:
  "i < length (tasks s) \<Longrightarrow> pcs s ! i = Queued \<Longrightarrow>
   worker_step reg n i s = (if may_start n i s then set_task i Taken s else s)"
  by (simp add: worker_step_def pcs_nth)

lemma worker_step_Taken:
  "i < length (tasks s) \<Longrightarrow> pcs s ! i = Taken \<Longrightarrow>
   worker_step reg n i s = (if errs s \<noteq> [] then set_task i Skipped s else set_task i Calling s)"
  by (simp add: worker_step_def pcs_nth)

lemma worker_step_Calling:
  "i < length (tasks s) \<Longrightarrow> pcs s ! i = Calling \<Longrightarrow>
   worker_step reg n i s =
     set_task i (case fst (deleteOne reg (fst (tasks s ! i)) (calls s)) of Some e \<Rightarrow> Failed e | None \<Rightarrow> Counting None)
       (s\<lparr>calls := snd (deleteOne reg (fst (tasks s ! i)) (calls s))\<rparr>)"
  by (simp add: worker_step_def pcs_nth Let_def)

lemma worker_step_Failed:
  "i < length (tasks s) \<Longrightarrow> pcs s ! i = Failed e \<Longrightarrow>
   worker_step reg n i s =
     (if map_of (errs s) (cause e) = None
      then set_task i (Recorded e) (s\<lparr>errs := errs s @ [(cause e, e)]\<rparr>)
      else set_task i (Counting (Some e)) s)"
  by (simp add: worker_step_def pcs_nth)

lemma worker_step_Counting:
  "i < length (tasks s) \<Longrightarrow> pcs s ! i = Counting r \<Longrightarrow>
   worker_step reg n i s = set_task i (Counted r) (s\<lparr>del := del s + 1\<rparr>)"
  by (simp add: worker_step_def pcs_nth)

lemma worker_step_returned:
  "i < length (tasks s) \<Longrightarrow> returned (pcs s ! i) \<Longrightarrow> worker_step reg n i s = s"
  by (cases "snd (tasks s ! i)") (simp_all add: worker_step_def pcs_nth)

lemma worker_step_cases:
  obtains
    (idle) "worker_step reg n i s = s"
  | (pick) "i < length (tasks s)" "pcs s ! i = Queued" "may_start n i s"
      "worker_step reg n i s = set_task i Taken s"
  | (skip) "i < length (tasks s)" "pcs s ! i = Taken" "errs s \<noteq> []"
      "worker_step reg n i s = set_task i Skipped s"
  | (start) "i < length (tasks s)" "pcs s ! i = Taken" "errs s = []"
      "worker_step reg n i s = set_task i Calling s"
  | (call_fail) e where "i < length (tasks s)" "pcs s ! i = Calling"
      "fst (deleteOne reg (fst (tasks s ! i)) (calls s)) = Some e"
      "worker_step reg n i s = set_task i (Failed e) (s\<lparr>calls := snd (deleteOne reg (fst (tasks s ! i)) (calls s))\<rparr>)"
  | (call_ok) "i < length (tasks s)" "pcs s ! i = Calling"
      "fst (deleteOne reg (fst (tasks s ! i)) (calls s)) = None"
      "worker_step reg n i s = set_task i (Counting None) (s\<lparr>calls := snd (deleteOne reg (fst (tasks s ! i)) (calls s))\<rparr>)"
  | (stored) e where "i < length (tasks s)" "pcs s ! i = Failed e" "map_of (errs s) (cause e) = None"
      "worker_step reg n i s = set_task i (Recorded e) (s\<lparr>errs := errs s @ [(cause e, e)]\<rparr>)"
  | (dup) e where "i < length (tasks s)" "pcs s ! i = Failed e" "map_of (errs s) (cause e) \<noteq> None"
      "worker_step reg n i s = set_task i (Counting (Some e)) s"
  | (count) r where "i < length (tasks s)" "pcs s ! i = Counting r"
      "worker_step reg n i s = set_task i (Counted r) (s\<lparr>del := del s + 1\<rparr>)"
proof (cases "i < length (tasks s)")
  case False
  then show ?thesis using idle by (simp add: worker_step_out)
next
  case lt: True
  show ?thesis
  proof (cases "pcs s ! i")
    case Queued
    note eq = worker_step_Queued [OF lt Queued, of reg n]
    show ?thesis
    proof (cases "may_start n i s")
      case False
      then show ?thesis using eq idle by simp
    next
      case True
      with eq have "worker_step reg n i s = set_task i Taken s" by simp
      with lt Queued True show ?thesis by (rule pick)
    qed
  next
    case Taken
    note eq = worker_step_Taken [OF lt Taken, of reg n]
    show ?thesis
    proof (cases "errs s = []")
      case True
      with eq have "worker_step reg n i s = set_task i Calling s" by simp
      with lt Taken True show ?thesis by (rule start)
    next
      case False
      with eq have "worker_step reg n i s = set_task i Skipped s" by simp
      with lt Taken False show ?thesis by (rule skip)
    qed
  next
    case Calling
    note eq = worker_step_Calling [OF lt Calling, of reg n]
    show ?thesis
    proof (cases "fst (deleteOne reg (fst (tasks s ! i)) (calls s))")
      case None
      with eq have "worker_step reg n i s = set_task i (Counting None) (s\<lparr>calls := snd (deleteOne reg (fst (tasks s ! i)) (calls s))\<rparr>)"
        by simp
      with lt Calling None show ?thesis by (rule call_ok)
    next
      case (Some e)
      with eq have "worker_step reg n i s = set_task i (Failed e) (s\<lparr>calls := snd (deleteOne reg (fst (tasks s ! i)) (calls s))\<rparr>)"
        by simp
      with lt Calling Some show ?thesis by (rule call_fail)
    qed
  next
    case (Failed e)
    note eq = worker_step_Failed [OF lt Failed, of reg n]
    show ?thesis
    proof (cases "map_of (errs s) (cause e) = None")
      case True
      with eq have "worker_step reg n i s = set_task i (Recorded e) (s\<lparr>errs := errs s @ [(cause e, e)]\<rparr>)"
        by simp
      with lt Failed True show ?thesis by (rule stored)
    next
      case False
      with eq have "worker_step reg n i s = set_task i (Counting (Some e)) s" by simp
      with lt Failed False show ?thesis by (rule dup)
    qed
  next
    case (Counting r)
    from lt Counting worker_step_Counting [OF lt Counting, of reg n] show ?thesis by (rule count)
  next
    case Skipped
    then show ?thesis using idle worker_step_returned [OF lt, of reg n] by simp
  next
    case (Recorded e)
    then show ?thesis using idle worker_step_returned [OF lt, of reg n] by simp
  next
    case (Counted r)
    then show ?thesis using idle worker_step_returned [OF lt, of reg n] by simp
  qed
qed

lemma main_step_cases:
  obtains
    (idle) "pending s = None" "todo s = []" "main_step reg c name keeping dry s = s"
  | (tag) t ts ref where "pending s = Some (t # ts, ref)"
      "main_step reg c name keeping dry s =
         s\<lparr>pending := Some (ts, ref), calls := snd (deleteOne reg (name @ '':'' @ t) (calls s))\<rparr>"
  | (submit) ref where "pending s = Some ([], ref)"
      "main_step reg c name keeping dry s = s\<lparr>pending := None, tasks := tasks s @ [(ref, Queued)]\<rparr>"
  | (keep) km rest where "pending s = None" "todo s = km # rest"
      "\<not> fst (shouldDelete c name (snd km) keeping (kept_size s))"
      "main_step reg c name keeping dry s =
         s\<lparr>todo := rest, kept_size := snd (shouldDelete c name (snd km) keeping (kept_size s))\<rparr>"
  | (dry_del) km rest where "pending s = None" "todo s = km # rest" "dry"
      "fst (shouldDelete c name (snd km) keeping (kept_size s))"
      "main_step reg c name keeping dry s =
         s\<lparr>todo := rest, kept_size := snd (shouldDelete c name (snd km) keeping (kept_size s)),
           del := del s + 1\<rparr>"
  | (take) km rest where "pending s = None" "todo s = km # rest" "\<not> dry"
      "fst (shouldDelete c name (snd km) keeping (kept_size s))"
      "main_step reg c name keeping dry s =
         s\<lparr>todo := rest, kept_size := snd (shouldDelete c name (snd km) keeping (kept_size s)),
           pending := Some (Tags (snd km), name @ ''@'' @ fst km)\<rparr>"
proof (cases "pending s")
  case None
  show ?thesis
  proof (cases "todo s")
    case Nil
    with None have "main_step reg c name keeping dry s = s" by (simp add: main_step_def)
    with None Nil show ?thesis by (rule idle)
  next
    case (Cons km rest)
    show ?thesis
    proof (cases "fst (shouldDelete c name (snd km) keeping (kept_size s))")
      case False
      with None Cons have "main_step reg c name keeping dry s =
         s\<lparr>todo := rest, kept_size := snd (shouldDelete c name (snd km) keeping (kept_size s))\<rparr>"
        by (simp add: main_step_def Let_def)
      with None Cons False show ?thesis by (rule keep)
    next
      case True
      show ?thesis
      proof (cases dry)
        case dry: True
        with None Cons True have "main_step reg c name keeping dry s =
           s\<lparr>todo := rest, kept_size := snd (shouldDelete c name (snd km) keeping (kept_size s)),
             del := del s + 1\<rparr>"
          by (simp add: main_step_def Let_def)
        with None Cons dry True show ?thesis by (rule dry_del)
      next
        case real: False
        with None Cons True have "main_step reg c name keeping dry s =
           s\<lparr>todo := rest, kept_size := snd (shouldDelete c name (snd km) keeping (kept_size s)),
             pending := Some (Tags (snd km), name @ ''@'' @ fst km)\<rparr>"
          by (simp add: main_step_def Let_def)
        with None Cons real True show ?thesis by (rule take)
      qed
    qed
  qed
next
  case (Some p)
  obtain tgs ref where p: "p = (tgs, ref)" by (cases p)
  show ?thesis
  proof (cases tgs)
    case Nil
    with Some p have "main_step reg c name keeping dry s = s\<lparr>pending := None, tasks := tasks s @ [(ref, Queued)]\<rparr>"
      by (simp add: main_step_def)
    moreover have "pending s = Some ([], ref)" using Some p Nil by simp
    ultimately show ?thesis using submit by blast
  next
    case (Cons t ts)
    with Some p have "main_step reg c name keeping dry s =
         s\<lparr>pending := Some (ts, ref), calls := snd (deleteOne reg (name @ '':'' @ t) (calls s))\<rparr>"
      by (simp add: main_step_def)
    moreover have "pending s = Some (t # ts, ref)" using Some p Cons by simp
    ultimately show ?thesis using tag by blast
  qed
qed

declare finish_main.simps [simp del]

lemma exec_Nil [simp]: "exec reg c name keeping [] s = s"
  by (simp add: exec_def)

lemma exec_Cons [simp]:
  "exec reg c name keeping (a # sched) s = exec reg c name keeping sched (step reg c name keeping a s)"
  by (simp add: exec_def)

lemma exec_append:
  "exec reg c name keeping (sched1 @ sched2) s = exec reg c name keeping sched2 (exec reg c name keeping sched1 s)"
  by (simp add: exec_def)

lemma step_Main [simp]: "step reg c name keeping Main s = main_step reg c name keeping False s"
  by (simp add: step_def)

lemma step_Worker [simp]: "step reg c name keeping (Worker i) s = worker_step reg (pool_size c) i s"
  by (simp add: step_def)

lemma finish_main_done: "main_done (finish_main reg c name keeping dry s)"
proof (induction reg c name keeping dry s rule: finish_main.induct)
  case (1 reg c name keeping dry s)
  then show ?case by (simp add: finish_main.simps [of reg c name keeping dry s])
qed

lemma finish_main_invariant:
  assumes "P s" and "\<And>s. P s \<Longrightarrow> P (main_step reg c name keeping dry s)"
  shows "P (finish_main reg c name keeping dry s)"
  using assms
proof (induction reg c name keeping dry s rule: finish_main.induct)
  case (1 reg c name keeping dry s)
  show ?case
  proof (cases "main_done s")
    case True
    then show ?thesis using "1.prems"(1) by (simp add: finish_main.simps [of reg c name keeping dry s])
  next
    case False
    have "P (main_step reg c name keeping dry s)" using "1.prems"(1) by (rule "1.prems"(2))
    then have "P (finish_main reg c name keeping dry (main_step reg c name keeping dry s))"
      using "1.IH" [OF False] "1.prems"(2) by blast
    then show ?thesis using False by (simp add: finish_main.simps [of reg c name keeping dry s])
  qed
qed

lemma exec_invariant:
  assumes "P s" and "\<And>a s. P s \<Longrightarrow> P (step reg c name keeping a s)"
  shows "P (exec reg c name keeping sched s)"
  using assms(1) by (induction sched arbitrary: s) (simp_all add: assms(2))

lemma finish_task_invariant:
  assumes "P s" and "\<And>s. P s \<Longrightarrow> P (worker_step reg n i s)"
  shows "P (finish_task reg n i s)"
  unfolding finish_task_def by (intro assms(2) assms(1))

lemma fold_finish_task_invariant:
  assumes "P s" and "\<And>i s. P s \<Longrightarrow> P (worker_step reg n i s)"
  shows "P (fold (finish_task reg n) is s)"
  using assms(1)
proof (induction "is" arbitrary: s)
  case Nil
  then show ?case by simp
next
  case (Cons i "is")
  have "P (finish_task reg n i s)" using Cons.prems assms(2) by (rule finish_task_invariant)
  then show ?case using Cons.IH by simp
qed

lemma stopWait_invariant:
  assumes "P s" and "\<And>i s. P s \<Longrightarrow> P (worker_step reg n i s)"
  shows "P (stopWait reg n s)"
  unfolding stopWait_def using assms by (rule fold_finish_task_invariant)

lemma real_run_invariant:
  assumes "P s" and "\<And>a s. P s \<Longrightarrow> P (step reg c name keeping a s)"
  shows "P (stopWait reg (pool_size c) (finish_main reg c name keeping False (exec reg c name keeping sched s)))"
proof -
  have m: "P (main_step reg c name keeping False s)" if "P s" for s
    using assms(2) [OF that, of Main] by simp
  have w: "P (worker_step reg (pool_size c) i s)" if "P s" for i s
    using assms(2) [OF that, of "Worker i"] by simp
  have "P (exec reg c name keeping sched s)" using assms by (rule exec_invariant)
  then have "P (finish_main reg c name keeping False (exec reg c name keeping sched s))"
    using m by (rule finish_main_invariant)
  then show ?thesis using w by (rule stopWait_invariant)
qed

lemma pcs_tasks_update [simp]: "pcs (s\<lparr>tasks := ts\<rparr>) = map snd ts"
  by (simp add: pcs_def)

lemma map_snd_tasks [simp]: "map snd (tasks s) = pcs s"
  by (simp add: pcs_def)

lemma pool_size_pos: "0 < pool_size c"
  by (simp add: pool_size_def)

section \<open>Fail-fast, FIFO order and the end of the pool\<close>

lemma suppressed_main_step:
  assumes "suppressed i s"
  shows "suppressed i (main_step reg c name keeping dry s)"
proof (cases rule: main_step_cases [of s reg c name keeping dry])
  case idle
  then show ?thesis using assms by simp
next
  case (tag t ts ref)
  then show ?thesis using assms by (simp add: suppressed_def)
next
  case (submit ref)
  then show ?thesis using assms by (auto simp: suppressed_def nth_append)
next
  case (keep km rest)
  then show ?thesis using assms by (simp add: suppressed_def)
next
  case (dry_del km rest)
  then show ?thesis using assms by (simp add: suppressed_def)
next
  case (take km rest)
  then show ?thesis using assms by (simp add: suppressed_def)
qed

lemma suppressed_worker_step:
  assumes "suppressed i s"
  shows "suppressed i (worker_step reg n k s)"
proof (cases rule: worker_step_cases [of reg n k s])
  case idle
  then show ?thesis using assms by simp
next
  case pick
  then show ?thesis using assms by (auto simp: suppressed_def nth_list_update)
next
  case skip
  then show ?thesis using assms by (auto simp: suppressed_def nth_list_update)
next
  case start
  then show ?thesis using assms by (simp add: suppressed_def)
next
  case (call_fail e)
  then show ?thesis using assms by (auto simp: suppressed_def nth_list_update)
next
  case call_ok
  then show ?thesis using assms by (auto simp: suppressed_def nth_list_update)
next
  case (stored e)
  then show ?thesis using assms by (auto simp: suppressed_def nth_list_update)
next
  case (dup e)
  then show ?thesis using assms by (auto simp: suppressed_def nth_list_update)
next
  case (count r)
  then show ?thesis using assms by (auto simp: suppressed_def nth_list_update)
qed

lemma suppressed_step: "suppressed i s \<Longrightarrow> suppressed i (step reg c name keeping a s)"
  by (cases a) (simp_all add: suppressed_main_step suppressed_worker_step)

lemma under_way_main_step:
  assumes "under_way i s"
  shows "under_way i (main_step reg c name keeping dry s)"
proof (cases rule: main_step_cases [of s reg c name keeping dry])
  case idle
  then show ?thesis using assms by simp
next
  case (tag t ts ref)
  then show ?thesis using assms by (simp add: under_way_def)
next
  case (submit ref)
  then show ?thesis using assms by (auto simp: under_way_def nth_append)
next
  case (keep km rest)
  then show ?thesis using assms by (simp add: under_way_def)
next
  case (dry_del km rest)
  then show ?thesis using assms by (simp add: under_way_def)
next
  case (take km rest)
  then show ?thesis using assms by (simp add: under_way_def)
qed

lemma under_way_worker_step:
  assumes "under_way i s"
  shows "under_way i (worker_step reg n k s)"
proof (cases rule: worker_step_cases [of reg n k s])
  case idle
  then show ?thesis using assms by simp
next
  case pick
  then show ?thesis using assms by (auto simp: under_way_def nth_list_update)
next
  case skip
  then show ?thesis using assms by (auto simp: under_way_def nth_list_update)
next
  case start
  then show ?thesis using assms by (auto simp: under_way_def nth_list_update)
next
  case (call_fail e)
  then show ?thesis using assms by (auto simp: under_way_def nth_list_update)
next
  case call_ok
  then show ?thesis using assms by (auto simp: under_way_def nth_list_update)
next
  case (stored e)
  then show ?thesis using assms by (auto simp: under_way_def nth_list_update)
next
  case (dup e)
  then show ?thesis using assms by (auto simp: under_way_def nth_list_update)
next
  case (count r)
  then show ?thesis using assms by (auto simp: under_way_def nth_list_update)
qed

lemma under_way_step: "under_way i s \<Longrightarrow> under_way i (step reg c name keeping a s)"
  by (cases a) (simp_all add: under_way_main_step under_way_worker_step)

lemma steps_left_0: "steps_left p = 0 \<longleftrightarrow> returned p"
  by (cases p) simp_all

lemma fifo_main_step:
  assumes "fifo s"
  shows "fifo (main_step reg c name keeping dry s)"
proof (cases rule: main_step_cases [of s reg c name keeping dry])
  case idle
  then show ?thesis using assms by simp
next
  case (tag t ts ref)
  then show ?thesis using assms by (simp add: fifo_def)
next
  case (submit ref)
  then show ?thesis using assms by (auto simp: fifo_def nth_append)
next
  case (keep km rest)
  then show ?thesis using assms by (simp add: fifo_def)
next
  case (dry_del km rest)
  then show ?thesis using assms by (simp add: fifo_def)
next
  case (take km rest)
  then show ?thesis using assms by (simp add: fifo_def)
qed

lemma fifo_set_task:
  assumes "fifo s" "k < length (tasks s)" "p \<noteq> Queued"
    and "pcs s ! k = Queued \<Longrightarrow> Queued \<notin> set (take k (pcs s))"
  shows "fifo (set_task k p s)"
  unfolding fifo_def
proof (intro allI impI)
  fix i j
  assume a: "i < j \<and> j < length (tasks (set_task k p s)) \<and> pcs (set_task k p s) ! i = Queued"
  then have ij: "i < j" "j < length (tasks s)" by simp_all
  have ik: "i \<noteq> k" using a assms(2,3) by (auto simp: nth_list_update)
  then have qi: "pcs s ! i = Queued" using a by (simp add: nth_list_update)
  then have qj: "pcs s ! j = Queued" using assms(1) ij by (auto simp: fifo_def)
  have "j \<noteq> k"
  proof
    assume "j = k"
    then have "Queued \<notin> set (take k (pcs s))" using qj assms(4) by simp
    moreover have "pcs s ! i \<in> set (take k (pcs s))"
      using ij \<open>j = k\<close> by (metis length_pcs less_trans in_set_conv_nth length_take min.absorb2 nth_take less_imp_le)
    ultimately show False using qi by simp
  qed
  then show "pcs (set_task k p s) ! j = Queued" using qj by (simp add: nth_list_update)
qed

lemma fifo_calls [simp]: "fifo (s\<lparr>calls := x\<rparr>) = fifo s"
  and fifo_errs [simp]: "fifo (s\<lparr>errs := y\<rparr>) = fifo s"
  and fifo_del [simp]: "fifo (s\<lparr>del := z\<rparr>) = fifo s"
  by (simp_all add: fifo_def)

lemma fifo_worker_step:
  assumes "fifo s"
  shows "fifo (worker_step reg n k s)"
proof (cases rule: worker_step_cases [of reg n k s])
  case idle
  then show ?thesis using assms by simp
next
  case pick
  then show ?thesis using assms by (auto intro!: fifo_set_task simp: may_start_def)
next
  case skip
  then show ?thesis using assms by (auto intro!: fifo_set_task simp: may_start_def)
next
  case start
  then show ?thesis using assms by (auto intro!: fifo_set_task simp: may_start_def)
next
  case (call_fail e)
  then show ?thesis using assms by (auto intro!: fifo_set_task)
next
  case call_ok
  then show ?thesis using assms by (auto intro!: fifo_set_task)
next
  case (stored e)
  then show ?thesis using assms by (auto intro!: fifo_set_task)
next
  case (dup e)
  then show ?thesis using assms by (auto intro!: fifo_set_task)
next
  case (count r)
  then show ?thesis using assms by (auto intro!: fifo_set_task)
qed

lemma fifo_step: "fifo s \<Longrightarrow> fifo (step reg c name keeping a s)"
  by (cases a) (simp_all add: fifo_main_step fifo_worker_step)

lemma worker_step_length [simp]: "length (tasks (worker_step reg n k s)) = length (tasks s)"
  by (cases rule: worker_step_cases [of reg n k s]) simp_all

lemma worker_step_other: "j \<noteq> k \<Longrightarrow> pcs (worker_step reg n k s) ! j = pcs s ! j"
  by (cases rule: worker_step_cases [of reg n k s]) simp_all

lemma worker_step_progress:
  assumes "k < length (tasks s)" and "pcs s ! k = Queued \<Longrightarrow> may_start n k s"
  shows "steps_left (pcs (worker_step reg n k s) ! k) \<le> steps_left (pcs s ! k) - 1
         \<and> pcs (worker_step reg n k s) ! k \<noteq> Queued"
proof (cases "pcs s ! k")
  case Queued
  then show ?thesis using assms by (simp add: worker_step_Queued)
next
  case Taken
  then show ?thesis using assms by (simp add: worker_step_Taken)
next
  case Calling
  then show ?thesis using assms
    by (simp add: worker_step_Calling split: option.splits)
next
  case (Failed e)
  then show ?thesis using assms by (simp add: worker_step_Failed)
next
  case (Counting r)
  then show ?thesis using assms by (simp add: worker_step_Counting)
next
  case Skipped
  then show ?thesis using assms by (simp add: worker_step_returned)
next
  case (Recorded e)
  then show ?thesis using assms by (simp add: worker_step_returned)
next
  case (Counted r)
  then show ?thesis using assms by (simp add: worker_step_returned)
qed

lemma finish_task_returns:
  assumes "k < length (tasks s)" and "pcs s ! k = Queued \<Longrightarrow> may_start n k s"
  shows "returned (pcs (finish_task reg n k s) ! k)"
proof -
  define s1 where "s1 = worker_step reg n k s"
  define s2 where "s2 = worker_step reg n k s1"
  define s3 where "s3 = worker_step reg n k s2"
  define s4 where "s4 = worker_step reg n k s3"
  define s5 where "s5 = worker_step reg n k s4"
  have l: "k < length (tasks s1)" "k < length (tasks s2)" "k < length (tasks s3)"
    "k < length (tasks s4)"
    using assms(1) by (simp_all add: s1_def s2_def s3_def s4_def)
  have p1: "steps_left (pcs s1 ! k) \<le> steps_left (pcs s ! k) - 1 \<and> pcs s1 ! k \<noteq> Queued"
    unfolding s1_def using assms by (rule worker_step_progress)
  have p2: "steps_left (pcs s2 ! k) \<le> steps_left (pcs s1 ! k) - 1 \<and> pcs s2 ! k \<noteq> Queued"
    unfolding s2_def using l(1) p1 by (intro worker_step_progress) simp_all
  have p3: "steps_left (pcs s3 ! k) \<le> steps_left (pcs s2 ! k) - 1 \<and> pcs s3 ! k \<noteq> Queued"
    unfolding s3_def using l(2) p2 by (intro worker_step_progress) simp_all
  have p4: "steps_left (pcs s4 ! k) \<le> steps_left (pcs s3 ! k) - 1 \<and> pcs s4 ! k \<noteq> Queued"
    unfolding s4_def using l(3) p3 by (intro worker_step_progress) simp_all
  have p5: "steps_left (pcs s5 ! k) \<le> steps_left (pcs s4 ! k) - 1 \<and> pcs s5 ! k \<noteq> Queued"
    unfolding s5_def using l(4) p4 by (intro worker_step_progress) simp_all
  have "steps_left (pcs s ! k) \<le> 5" by (cases "pcs s ! k") simp_all
  then have "steps_left (pcs s5 ! k) = 0" using p1 p2 p3 p4 p5 by linarith
  then have "returned (pcs s5 ! k)" by (simp add: steps_left_0)
  moreover have "finish_task reg n k s = s5"
    by (simp add: finish_task_def s1_def s2_def s3_def s4_def s5_def)
  ultimately show ?thesis by simp
qed

lemma finish_task_length [simp]: "length (tasks (finish_task reg n k s)) = length (tasks s)"
  by (simp add: finish_task_def)

lemma finish_task_other: "j \<noteq> k \<Longrightarrow> pcs (finish_task reg n k s) ! j = pcs s ! j"
  by (simp add: finish_task_def worker_step_other)

lemma fifo_finish_task: "fifo s \<Longrightarrow> fifo (finish_task reg n k s)"
  by (rule finish_task_invariant) (simp_all add: fifo_worker_step)

lemma may_start_in_order:
  assumes "fifo s" "k < length (tasks s)" "pcs s ! k = Queued" "0 < n"
    and "\<forall>j<k. returned (pcs s ! j)"
  shows "may_start n k s"
proof -
  have a: "Queued \<notin> set (take k (pcs s))"
  proof
    assume "Queued \<in> set (take k (pcs s))"
    then obtain j where "j < k" "pcs s ! j = Queued"
      using assms(2) by (auto simp: in_set_conv_nth)
    then show False using assms(5) by auto
  qed
  have "\<not> inflight p" if "p \<in> set (pcs s)" for p
  proof -
    from that obtain j where j: "j < length (tasks s)" "p = pcs s ! j"
      by (auto simp: in_set_conv_nth)
    show ?thesis
    proof (cases "j < k")
      case True
      then have "returned p" using assms(5) j by simp
      then show ?thesis by (cases p) simp_all
    next
      case False
      then have "j = k \<or> k < j" by arith
      then have "p = Queued" using assms(1,3) j by (auto simp: fifo_def)
      then show ?thesis by simp
    qed
  qed
  then have "filter inflight (pcs s) = []" by (simp add: filter_empty_conv)
  then show ?thesis using a assms(4) by (simp add: may_start_def)
qed

lemma fold_finish_task_returns:
  assumes "fifo s" "0 < n" "m \<le> length (tasks s)" "k \<le> m" "\<forall>j<k. returned (pcs s ! j)"
  shows "\<forall>j<m. returned (pcs (fold (finish_task reg n) [k..<m] s) ! j)"
  using assms
proof (induction "m - k" arbitrary: k s)
  case 0
  then show ?case by simp
next
  case (Suc d)
  then have km: "k < m" by simp
  then have upt: "[k..<m] = k # [Suc k..<m]" by (simp add: upt_conv_Cons)
  define s' where "s' = finish_task reg n k s"
  have kl: "k < length (tasks s)" using km Suc.prems(3) by simp
  have ms: "pcs s ! k = Queued \<Longrightarrow> may_start n k s"
    using Suc.prems(1) kl Suc.prems(2) Suc.prems(5) by (intro may_start_in_order) simp_all
  have r: "returned (pcs s' ! k)" unfolding s'_def using kl ms by (rule finish_task_returns)
  have all: "\<forall>j<Suc k. returned (pcs s' ! j)"
  proof (intro allI impI)
    fix j assume "j < Suc k"
    then have "j = k \<or> j < k" by arith
    then show "returned (pcs s' ! j)"
      using r Suc.prems(5) by (auto simp: s'_def finish_task_other)
  qed
  have "\<forall>j<m. returned (pcs (fold (finish_task reg n) [Suc k..<m] s') ! j)"
  proof (rule Suc.hyps(1))
    show "d = m - Suc k" using Suc.hyps(2) by simp
    show "fifo s'" unfolding s'_def using Suc.prems(1) by (rule fifo_finish_task)
    show "0 < n" by (rule Suc.prems(2))
    show "m \<le> length (tasks s')" using Suc.prems(3) by (simp add: s'_def)
    show "Suc k \<le> m" using km by simp
    show "\<forall>j<Suc k. returned (pcs s' ! j)" by (rule all)
  qed
  then show ?case by (simp add: upt s'_def)
qed

lemma stopWait_length [simp]: "length (tasks (stopWait reg n s)) = length (tasks s)"
  by (rule stopWait_invariant [where P = "\<lambda>s'. length (tasks s') = length (tasks s)"]) simp_all

lemma stopWait_returns:
  assumes "fifo s" "0 < n"
  shows "\<forall>j<length (tasks s). returned (pcs (stopWait reg n s) ! j)"
  unfolding stopWait_def using assms by (intro fold_finish_task_returns) simp_all

lemma worker_step_main [simp]:
  "todo (worker_step reg n k s) = todo s" "pending (worker_step reg n k s) = pending s"
  "kept_size (worker_step reg n k s) = kept_size s"
  by (cases rule: worker_step_cases [of reg n k s]; simp)+

lemma main_done_worker_step [simp]: "main_done (worker_step reg n k s) = main_done s"
  by (simp add: main_done_def)

lemma fifo_initial: "fifo (initial_rstate ms log)"
  by (simp add: fifo_def initial_rstate_def)

lemma run_repo_real:
  "run_repo reg c name keeping False (sched1 @ sched2) s =
     stopWait reg (pool_size c) (finish_main reg c name keeping False
       (exec reg c name keeping sched2 (exec reg c name keeping sched1 s)))"
  by (simp add: run_repo_def exec_append)

lemma run_repo_all_returned:
  assumes "fifo s"
  shows "\<forall>i<length (tasks (run_repo reg c name keeping False sched s)). returned (pcs (run_repo reg c name keeping False sched s) ! i)"
proof -
  define s' where "s' = finish_main reg c name keeping False (exec reg c name keeping sched s)"
  have "fifo (exec reg c name keeping sched s)"
    using assms by (rule exec_invariant) (rule fifo_step)
  then have "fifo s'" unfolding s'_def by (rule finish_main_invariant) (rule fifo_main_step)
  then have "\<forall>j<length (tasks s'). returned (pcs (stopWait reg (pool_size c) s') ! j)"
    using pool_size_pos by (rule stopWait_returns)
  then show ?thesis by (simp add: run_repo_def s'_def)
qed

lemma run_repo_main_done: "main_done (run_repo reg c name keeping False sched s)"
proof -
  have "main_done (finish_main reg c name keeping False (exec reg c name keeping sched s))"
    by (rule finish_main_done)
  then show ?thesis
    unfolding run_repo_def by (simp only: if_False) (rule stopWait_invariant, simp_all)
qed

section \<open>Invariants of a real run\<close>

lemma length_filter_update:
  assumes "k < length xs"
  shows "length (filter P (xs[k := y])) + (if P (xs ! k) then 1 else 0)
         = length (filter P xs) + (if P y then 1 else 0)"
proof -
  have a: "xs = take k xs @ xs ! k # drop (Suc k) xs" using assms by (rule id_take_nth_drop)
  have b: "xs[k := y] = take k xs @ y # drop (Suc k) xs" using assms by (rule upd_conv_take_nth_drop)
  have "length (filter P xs) = length (filter P (take k xs @ xs ! k # drop (Suc k) xs))"
    using a by simp
  then show ?thesis by (simp add: b)
qed

lemma in_set_update_keep: "x \<in> set xs \<Longrightarrow> xs ! k \<noteq> x \<Longrightarrow> x \<in> set (xs[k := y])"
  by (metis in_set_conv_nth length_list_update nth_list_update_neq)

lemma in_set_update_cases: "x \<in> set (xs[k := y]) \<Longrightarrow> x = y \<or> x \<in> set xs"
  using set_update_subset_insert [of xs k y] by auto

lemma counts_ok_set_task:
  assumes "counts_ok s" "k < length (tasks s)" "\<not> counted (pcs s ! k)" "\<not> counted p"
  shows "counts_ok (set_task k p s)"
  using assms length_filter_update [of k "pcs s" counted p] by (simp add: counts_ok_def)

lemma counts_ok_fields [simp]:
  "counts_ok (s\<lparr>calls := x\<rparr>) = counts_ok s" "counts_ok (s\<lparr>errs := y\<rparr>) = counts_ok s"
  "counts_ok (s\<lparr>todo := u\<rparr>) = counts_ok s" "counts_ok (s\<lparr>pending := v\<rparr>) = counts_ok s"
  "counts_ok (s\<lparr>kept_size := w\<rparr>) = counts_ok s"
  by (simp_all add: counts_ok_def)

lemma counts_ok_worker_step:
  assumes "counts_ok s"
  shows "counts_ok (worker_step reg n k s)"
proof (cases rule: worker_step_cases [of reg n k s])
  case idle
  then show ?thesis using assms by simp
next
  case pick
  then show ?thesis using assms by (simp add: counts_ok_set_task)
next
  case skip
  then show ?thesis using assms by (simp add: counts_ok_set_task)
next
  case start
  then show ?thesis using assms by (simp add: counts_ok_set_task)
next
  case (call_fail e)
  then show ?thesis using assms by (simp add: counts_ok_set_task)
next
  case call_ok
  then show ?thesis using assms by (simp add: counts_ok_set_task)
next
  case (stored e)
  then show ?thesis using assms by (simp add: counts_ok_set_task)
next
  case (dup e)
  then show ?thesis using assms by (simp add: counts_ok_set_task)
next
  case (count r)
  then show ?thesis
    using assms length_filter_update [of k "pcs s" counted "Counted r"]
    by (simp add: counts_ok_def)
qed

lemma counts_ok_main_step:
  assumes "counts_ok s"
  shows "counts_ok (main_step reg c name keeping False s)"
proof (cases rule: main_step_cases [of s reg c name keeping False])
  case idle
  then show ?thesis using assms by simp
next
  case (tag t ts ref)
  then show ?thesis using assms by simp
next
  case (submit ref)
  then show ?thesis using assms by (simp add: counts_ok_def)
next
  case (keep km rest)
  then show ?thesis using assms by simp
next
  case (dry_del km rest)
  then show ?thesis by simp
next
  case (take km rest)
  then show ?thesis using assms by simp
qed

lemma counts_ok_step: "counts_ok s \<Longrightarrow> counts_ok (step reg c name keeping a s)"
  by (cases a) (simp_all add: counts_ok_main_step counts_ok_worker_step)

lemma recorded_iff: "recorded p \<longleftrightarrow> (\<exists>e. p = Recorded e)"
  by (cases p) simp_all

lemma errs_ok_fields [simp]:
  "errs_ok (s\<lparr>calls := x\<rparr>) = errs_ok s" "errs_ok (s\<lparr>del := z\<rparr>) = errs_ok s"
  "errs_ok (s\<lparr>todo := u\<rparr>) = errs_ok s" "errs_ok (s\<lparr>pending := v\<rparr>) = errs_ok s"
  "errs_ok (s\<lparr>kept_size := w\<rparr>) = errs_ok s"
  by (simp_all add: errs_ok_def)

lemma errs_ok_neutral:
  assumes ok: "errs_ok s" and k: "k < length (tasks s)"
    and old: "\<not> recorded (pcs s ! k)" and new: "\<not> recorded p"
    and acc: "\<And>e. failure_of p = Some e \<Longrightarrow> p \<noteq> Failed e \<Longrightarrow> cause e \<in> fst ` set (errs s)"
    and skp: "p = Skipped \<Longrightarrow> errs s \<noteq> []"
  shows "errs_ok (set_task k p s)"
proof -
  have 1: "distinct (map fst (errs s))" using ok by (simp add: errs_ok_def)
  have 2: "cause (snd ce) = fst ce \<and> Recorded (snd ce) \<in> set ((pcs s)[k := p])"
    if "ce \<in> set (errs s)" for ce
  proof -
    have a: "cause (snd ce) = fst ce" "Recorded (snd ce) \<in> set (pcs s)"
      using ok that by (auto simp: errs_ok_def)
    have "pcs s ! k \<noteq> Recorded (snd ce)" using old by (auto simp: recorded_iff)
    with a(2) have "Recorded (snd ce) \<in> set ((pcs s)[k := p])" by (rule in_set_update_keep)
    with a(1) show ?thesis by simp
  qed
  have 3: "length (filter recorded ((pcs s)[k := p])) = length (errs s)"
    using ok k old new length_filter_update [of k "pcs s" recorded p] by (simp add: errs_ok_def)
  have 4: "cause e \<in> fst ` set (errs s)"
    if "q \<in> set ((pcs s)[k := p])" "failure_of q = Some e" "q \<noteq> Failed e" for q e
  proof -
    from that(1) have "q = p \<or> q \<in> set (pcs s)" by (rule in_set_update_cases)
    then show ?thesis
    proof
      assume "q = p"
      then show ?thesis using acc that by simp
    next
      assume "q \<in> set (pcs s)"
      then show ?thesis using ok that(2,3) by (auto simp: errs_ok_def)
    qed
  qed
  have 5: "errs s \<noteq> []" if "Skipped \<in> set ((pcs s)[k := p])"
  proof -
    from that have "Skipped = p \<or> Skipped \<in> set (pcs s)" by (rule in_set_update_cases)
    then show ?thesis using skp ok by (auto simp: errs_ok_def)
  qed
  show ?thesis unfolding errs_ok_def using 1 2 3 4 5 by simp
qed

lemma errs_ok_stored:
  assumes ok: "errs_ok s" and k: "k < length (tasks s)"
    and old: "pcs s ! k = Failed e" and new: "map_of (errs s) (cause e) = None"
  shows "errs_ok (set_task k (Recorded e) (s\<lparr>errs := errs s @ [(cause e, e)]\<rparr>))"
proof -
  have fresh: "cause e \<notin> fst ` set (errs s)" using new by (simp add: map_of_eq_None_iff)
  have kl: "k < length (pcs s)" using k by simp
  have 1: "distinct (map fst (errs s @ [(cause e, e)]))"
    using ok fresh by (simp add: errs_ok_def)
  have 2: "cause (snd ce) = fst ce \<and> Recorded (snd ce) \<in> set ((pcs s)[k := Recorded e])"
    if "ce \<in> set (errs s @ [(cause e, e)])" for ce
  proof (cases "ce \<in> set (errs s)")
    case True
    then have a: "cause (snd ce) = fst ce" "Recorded (snd ce) \<in> set (pcs s)"
      using ok by (auto simp: errs_ok_def)
    have "pcs s ! k \<noteq> Recorded (snd ce)" using old by simp
    with a(2) have "Recorded (snd ce) \<in> set ((pcs s)[k := Recorded e])" by (rule in_set_update_keep)
    with a(1) show ?thesis by simp
  next
    case False
    then have "ce = (cause e, e)" using that by simp
    then show ?thesis using kl by (simp add: set_update_memI)
  qed
  have 3: "length (filter recorded ((pcs s)[k := Recorded e])) = length (errs s @ [(cause e, e)])"
    using ok k old length_filter_update [of k "pcs s" recorded "Recorded e"] by (simp add: errs_ok_def)
  have 4: "cause e' \<in> fst ` set (errs s @ [(cause e, e)])"
    if "q \<in> set ((pcs s)[k := Recorded e])" "failure_of q = Some e'" "q \<noteq> Failed e'" for q e'
  proof -
    from that(1) have "q = Recorded e \<or> q \<in> set (pcs s)" by (rule in_set_update_cases)
    then show ?thesis
    proof
      assume "q = Recorded e"
      then show ?thesis using that(2) by simp
    next
      assume "q \<in> set (pcs s)"
      then have "cause e' \<in> fst ` set (errs s)" using ok that(2,3) by (auto simp: errs_ok_def)
      then show ?thesis by simp
    qed
  qed
  show ?thesis unfolding errs_ok_def using 1 2 3 4 by simp
qed

lemma errs_ok_worker_step:
  assumes "errs_ok s"
  shows "errs_ok (worker_step reg n k s)"
proof (cases rule: worker_step_cases [of reg n k s])
  case idle
  then show ?thesis using assms by simp
next
  case pick
  then show ?thesis using assms by (auto intro!: errs_ok_neutral)
next
  case skip
  then show ?thesis using assms by (auto intro!: errs_ok_neutral)
next
  case start
  then show ?thesis using assms by (auto intro!: errs_ok_neutral)
next
  case (call_fail e)
  then show ?thesis using assms by (auto intro!: errs_ok_neutral)
next
  case call_ok
  then show ?thesis using assms by (auto intro!: errs_ok_neutral)
next
  case (stored e)
  then show ?thesis using assms by (auto intro!: errs_ok_stored)
next
  case (dup e)
  have in_keys: "cause e \<in> fst ` set (errs s)" using dup(3) by (simp add: map_of_eq_None_iff)
  have "errs_ok (set_task k (Counting (Some e)) s)"
  proof (rule errs_ok_neutral)
    show "errs_ok s" by (rule assms)
    show "k < length (tasks s)" by (rule dup(1))
    show "\<not> recorded (pcs s ! k)" using dup(2) by simp
    show "\<not> recorded (Counting (Some e))" by simp
    show "cause e' \<in> fst ` set (errs s)" if "failure_of (Counting (Some e)) = Some e'" for e'
      using that in_keys by simp
    show "errs s \<noteq> []" if "Counting (Some e) = Skipped" using that by simp
  qed
  then show ?thesis using dup(4) by simp
next
  case (count r)
  have "cause e \<in> fst ` set (errs s)" if "r = Some e" for e
  proof -
    have "pcs s ! k \<in> set (pcs s)" using count(1) by simp
    then show ?thesis using assms count(2) that by (auto simp: errs_ok_def)
  qed
  then have acc: "cause e \<in> fst ` set (errs s)" if "failure_of (Counted r) = Some e" for e
    using that by simp
  have "errs_ok (set_task k (Counted r) (s\<lparr>del := del s + 1\<rparr>))"
  proof (rule errs_ok_neutral)
    show "errs_ok (s\<lparr>del := del s + 1\<rparr>)" using assms by simp
    show "k < length (tasks (s\<lparr>del := del s + 1\<rparr>))" using count(1) by simp
    show "\<not> recorded (pcs (s\<lparr>del := del s + 1\<rparr>) ! k)" using count(2) by simp
    show "\<not> recorded (Counted r)" by simp
    show "cause e \<in> fst ` set (errs (s\<lparr>del := del s + 1\<rparr>))" if "failure_of (Counted r) = Some e" for e
      using that acc by simp
    show "errs (s\<lparr>del := del s + 1\<rparr>) \<noteq> []" if "Counted r = Skipped" using that by simp
  qed
  then show ?thesis using count(3) by simp
qed

lemma errs_ok_main_step:
  assumes "errs_ok s"
  shows "errs_ok (main_step reg c name keeping dry s)"
proof (cases rule: main_step_cases [of s reg c name keeping dry])
  case idle
  then show ?thesis using assms by simp
next
  case (tag t ts ref)
  then show ?thesis using assms by simp
next
  case (submit ref)
  then show ?thesis using assms by (auto simp: errs_ok_def)
next
  case (keep km rest)
  then show ?thesis using assms by simp
next
  case (dry_del km rest)
  then show ?thesis using assms by simp
next
  case (take km rest)
  then show ?thesis using assms by simp
qed

lemma errs_ok_step: "errs_ok s \<Longrightarrow> errs_ok (step reg c name keeping a s)"
  by (cases a) (simp_all add: errs_ok_main_step errs_ok_worker_step)

lemma counts_ok_initial: "counts_ok (initial_rstate ms log)"
  by (simp add: counts_ok_def initial_rstate_def pcs_def)

lemma errs_ok_initial: "errs_ok (initial_rstate ms log)"
  by (simp add: errs_ok_def initial_rstate_def pcs_def)

lemma build_keeping_total: "\<exists>keeping. build_keeping g c name tags = Some keeping"
proof -
  have lt: "int (length tags) - 1 < int (length tags)" by simp
  have c0: "0 \<le> (if lookup (repoExcept c) name then 0 else initial_control g tags)"
    by (simp add: initial_control_def max_int_def)
  show ?thesis
    unfolding build_keeping_def Let_def using c0 lt by (rule keep_loop_Some)
qed



lemma real_inv_fields [simp]:
  "real_inv c name keeping tot (s\<lparr>calls := x\<rparr>) = real_inv c name keeping tot s"
  "real_inv c name keeping tot (s\<lparr>errs := y\<rparr>) = real_inv c name keeping tot s"
  "real_inv c name keeping tot (s\<lparr>del := z\<rparr>) = real_inv c name keeping tot s"
  by (simp_all add: real_inv_def submitted_def)

lemma real_inv_set_task [simp]:
  "real_inv c name keeping tot (set_task k p s) = real_inv c name keeping tot s"
  by (simp add: real_inv_def submitted_def)




lemma run_repo_invariant:
  assumes "P s" and "\<And>a s. P s \<Longrightarrow> P (step reg c name keeping a s)"
  shows "P (run_repo reg c name keeping False sched s)"
  unfolding run_repo_def using real_run_invariant [of P, OF assms] by simp


lemma real_run_facts:
  fixes reg c name keeping sched ms log
  defines "s \<equiv> run_repo reg c name keeping False sched (initial_rstate ms log)"
  shows "counts_ok s" "errs_ok s" "\<forall>i<length (tasks s). returned (pcs s ! i)"
proof -
  show "counts_ok s" unfolding s_def
    using counts_ok_initial by (rule run_repo_invariant) (rule counts_ok_step)
  show "errs_ok s" unfolding s_def
    using errs_ok_initial by (rule run_repo_invariant) (rule errs_ok_step)
  show "\<forall>i<length (tasks s). returned (pcs s ! i)"
    unfolding s_def using fifo_initial by (rule run_repo_all_returned)
qed



lemma clean_child_unresolved:
  "gcr_NewRepository reg (repo g @ ''/'' @ r) = Some e \<Longrightarrow>
   clean_child reg g dry r sched cs =
     Some (cs\<lparr>errStrings := errStrings cs @ [child_repo_failure (repo g @ ''/'' @ r) e]\<rparr>)"
  by (simp add: clean_child_def)

lemma clean_child_unlisted:
  "gcr_NewRepository reg (repo g @ ''/'' @ r) = None \<Longrightarrow> gcr_List reg (repo g @ ''/'' @ r) = Inl e \<Longrightarrow>
   clean_child reg g dry r sched cs =
     Some (cs\<lparr>errStrings := errStrings cs @ [list_tags_failure (repo g @ ''/'' @ r) e]\<rparr>)"
  by (simp add: clean_child_def)

lemma clean_child_listed:
  assumes "gcr_NewRepository reg (repo g @ ''/'' @ r) = None"
    and "gcr_List reg (repo g @ ''/'' @ r) = Inr tags"
    and "build_keeping g (cleaner cs) (repo g @ ''/'' @ r) (TagNames tags) = Some keeping"
  shows "clean_child reg g dry r sched cs =
     (let s = child_pool_state reg g dry r sched cs keeping tags;
          cs' = cs\<lparr>cleaner := (cleaner cs)\<lparr>tagExcept := keeping\<rparr>, dlog := calls s\<rparr>
      in Some (if \<not> dry \<and> errs s \<noteq> []
               then cs'\<lparr>errStrings := errStrings cs @
                      map (\<lambda>ce. msg (snd ce)) (pick_order (snd sched) (errs s))\<rparr>
               else cs'\<lparr>status := status cs @ [child_line g dry r tags s]\<rparr>))"
  using assms by (simp add: clean_child_def child_pool_state_def child_line_def Let_def)




lemma append_one_neq: "xs \<noteq> xs @ [x]"
  by simp

declare pick_order.simps [simp del]

lemma pick_order_Nil [simp]: "pick_order [] xs = xs"
  by (simp add: pick_order.simps [of "[]" xs])

lemma pick_order_empty [simp]: "pick_order picks [] = []"
  by (cases picks) (simp_all add: pick_order.simps [of _ "[]"])

lemma pick_order_Cons:
  "xs \<noteq> [] \<Longrightarrow> pick_order (k # rest) xs =
     xs ! (k mod length xs) # pick_order rest (take (k mod length xs) xs @ drop (Suc (k mod length xs)) xs)"
  by (simp add: pick_order.simps [of "k # rest" xs] Let_def)

lemma mset_pick_order: "mset (pick_order picks xs) = mset xs"
proof (induction picks arbitrary: xs)
  case Nil
  then show ?case by simp
next
  case (Cons k rest)
  show ?case
  proof (cases "xs = []")
    case True
    then show ?thesis by simp
  next
    case False
    define i where "i = k mod length xs"
    have i: "i < length xs" using False by (simp add: i_def)
    have "mset (pick_order (k # rest) xs) = {#xs ! i#} + mset (take i xs @ drop (Suc i) xs)"
      using False Cons.IH by (simp add: pick_order_Cons i_def)
    also have "\<dots> = mset (take i xs @ xs ! i # drop (Suc i) xs)" by simp
    also have "\<dots> = mset xs" using id_take_nth_drop [OF i] by simp
    finally show ?thesis .
  qed
qed

lemma set_pick_order [simp]: "set (pick_order picks xs) = set xs"
  using mset_pick_order [of picks xs] by (metis set_mset_mset)

lemma length_pick_order [simp]: "length (pick_order picks xs) = length xs"
  using mset_pick_order [of picks xs] by (metis size_mset)

lemma pick_order_eq_Nil [simp]: "pick_order picks xs = [] \<longleftrightarrow> xs = []"
  using length_pick_order [of picks xs] by (metis length_0_conv)

lemma pick_order_complete:
  "mset ys = mset xs \<Longrightarrow> \<exists>picks. pick_order picks xs = ys"
proof (induction ys arbitrary: xs)
  case Nil
  then have "xs = []" by simp
  then show ?case by (intro exI [of _ "[]"]) simp
next
  case (Cons y ys)
  have "y \<in> set xs" using Cons.prems by (metis list.set_intros(1) set_mset_mset)
  then obtain i where i: "i < length xs" "xs ! i = y" by (auto simp: in_set_conv_nth)
  define xs' where "xs' = take i xs @ drop (Suc i) xs"
  have "mset xs = {#y#} + mset xs'"
    using id_take_nth_drop [OF i(1)] i(2) unfolding xs'_def
    by (metis add_mset_add_single mset.simps(2) mset_append union_mset_add_mset_right union_commute)
  then have "mset ys = mset xs'" using Cons.prems by simp
  from Cons.IH [OF this] obtain picks where p: "pick_order picks xs' = ys" by blast
  have ne: "xs \<noteq> []" using i(1) by auto
  have "pick_order (i # picks) xs = y # ys"
    using ne i p by (simp add: pick_order_Cons xs'_def)
  then show ?case by blast
qed

section \<open>Dry run and real run\<close>




lemma web_resolves:
  "gcr_NewRepository denied_registry (repo ex_globals @ ''/'' @ ''web'') = None"
  "gcr_List denied_registry (repo ex_globals @ ''/'' @ ''web'') = Inr web_listing"
  "gcr_NewRepository ok_registry (repo ex_globals @ ''/'' @ ''web'') = None"
  "gcr_List ok_registry (repo ex_globals @ ''/'' @ ''web'') = Inr web_listing"
  by (simp_all add: denied_registry_def ok_registry_def ex_globals_def web_listing_def web_manifests_def)




lemma build_keeping_mono:
  assumes "build_keeping g c name tags = Some keeping" "lookup (tagExcept c) k"
  shows "lookup keeping k"
proof -
  have lt: "int (length tags) - 1 < int (length tags)" by simp
  have c0: "0 \<le> (if lookup (repoExcept c) name then 0 else initial_control g tags)"
    by (simp add: initial_control_def max_int_def)
  have "keep_loop (globalTagExcept c) name tags (int (length tags) - 1)
          (if lookup (repoExcept c) name then 0 else initial_control g tags) (tagExcept c) = Some keeping"
    using assms(1) by (simp add: build_keeping_def Let_def)
  from keep_loop_result [OF c0 lt this]
  have "keeping k = tagExcept c k \<or> keeping k = Some True" by blast
  then show ?thesis using assms(2) by (auto simp: lookup_def)
qed

lemma shouldDelete_tags_reads:
  "(\<forall>t\<in>set ts. lookup k1 (tagName_of n t) = lookup k2 (tagName_of n t)) \<Longrightarrow>
   shouldDelete_tags n m k1 tot ts = shouldDelete_tags n m k2 tot ts"
  by (induction ts) simp_all

lemma shouldDelete_reads:
  "(\<forall>t\<in>set (Tags m). lookup k1 (tagName_of n t) = lookup k2 (tagName_of n t)) \<Longrightarrow>
   shouldDelete c n m k1 tot = shouldDelete c n m k2 tot"
  by (simp add: shouldDelete_def shouldDelete_tags_reads)

section \<open>The loop over the child repositories\<close>

lemma clean_child_outcome:
  "\<exists>cs'. clean_child reg g dry r sched cs = Some cs'
     \<and> repoExcept (cleaner cs') = repoExcept (cleaner cs)
     \<and> globalTagExcept (cleaner cs') = globalTagExcept (cleaner cs)
     \<and> concurrency (cleaner cs') = concurrency (cleaner cs)
     \<and> (\<forall>k. lookup (tagExcept (cleaner cs)) k \<longrightarrow> lookup (tagExcept (cleaner cs')) k)
     \<and> ((errStrings cs' = errStrings cs
          \<and> (\<exists>line. status cs' = status cs @ [line] \<and> st_name line = repo g @ ''/'' @ r \<and> st_dry line = dry))
         \<or> (status cs' = status cs \<and> (\<exists>es. es \<noteq> [] \<and> errStrings cs' = errStrings cs @ es)))"
proof (cases "gcr_NewRepository reg (repo g @ ''/'' @ r)")
  case (Some e)
  then show ?thesis by (simp add: clean_child_unresolved)
next
  case None
  show ?thesis
  proof (cases "gcr_List reg (repo g @ ''/'' @ r)")
    case (Inl e)
    then show ?thesis using None by (simp add: clean_child_unlisted)
  next
    case (Inr tags)
    obtain keeping where k: "build_keeping g (cleaner cs) (repo g @ ''/'' @ r) (TagNames tags) = Some keeping"
      using build_keeping_total by blast
    define s where "s = child_pool_state reg g dry r sched cs keeping tags"
    have mono: "\<forall>k. lookup (tagExcept (cleaner cs)) k \<longrightarrow> lookup keeping k"
      using build_keeping_mono [OF k] by blast
    show ?thesis
    proof (cases "\<not> dry \<and> errs s \<noteq> []")
      case True
      then have "clean_child reg g dry r sched cs =
          Some (cs\<lparr>cleaner := (cleaner cs)\<lparr>tagExcept := keeping\<rparr>, dlog := calls s,
                  errStrings := errStrings cs @
                    map (\<lambda>ce. msg (snd ce)) (pick_order (snd sched) (errs s))\<rparr>)"
        using clean_child_listed [OF None Inr k, of dry sched] by (auto simp add: Let_def s_def)
      then show ?thesis using True mono by simp
    next
      case False
      then have "clean_child reg g dry r sched cs =
          Some (cs\<lparr>cleaner := (cleaner cs)\<lparr>tagExcept := keeping\<rparr>, dlog := calls s,
                  status := status cs @ [child_line g dry r tags s]\<rparr>)"
        using clean_child_listed [OF None Inr k, of dry sched] by (auto simp add: Let_def s_def)
      then show ?thesis using mono by (simp add: child_line_def)
    qed
  qed
qed

lemma clean_children_outcome:
  "\<exists>cs'. clean_children reg g dry rs scheds cs = Some cs'
     \<and> repoExcept (cleaner cs') = repoExcept (cleaner cs)
     \<and> globalTagExcept (cleaner cs') = globalTagExcept (cleaner cs)
     \<and> concurrency (cleaner cs') = concurrency (cleaner cs)
     \<and> (\<forall>k. lookup (tagExcept (cleaner cs)) k \<longrightarrow> lookup (tagExcept (cleaner cs')) k)
     \<and> (\<exists>es. errStrings cs' = errStrings cs @ es)
     \<and> (errStrings cs' = errStrings cs \<longrightarrow>
          map st_name (status cs') = map st_name (status cs) @ map (\<lambda>r. repo g @ ''/'' @ r) rs)"
proof (induction rs arbitrary: scheds cs)
  case Nil
  then show ?case by simp
next
  case (Cons r rs)
  define sc where "sc = (case scheds of [] \<Rightarrow> ([], []) | sc # _ \<Rightarrow> sc)"
  from clean_child_outcome [of reg g dry r sc cs] obtain cs1 where
    1: "clean_child reg g dry r sc cs = Some cs1"
    and f1: "repoExcept (cleaner cs1) = repoExcept (cleaner cs)"
      "globalTagExcept (cleaner cs1) = globalTagExcept (cleaner cs)"
      "concurrency (cleaner cs1) = concurrency (cleaner cs)"
      "\<forall>k. lookup (tagExcept (cleaner cs)) k \<longrightarrow> lookup (tagExcept (cleaner cs1)) k"
    and d1: "(errStrings cs1 = errStrings cs
          \<and> (\<exists>line. status cs1 = status cs @ [line] \<and> st_name line = repo g @ ''/'' @ r \<and> st_dry line = dry))
         \<or> (status cs1 = status cs \<and> (\<exists>es. es \<noteq> [] \<and> errStrings cs1 = errStrings cs @ es))"
    by blast
  from Cons.IH [of "tl scheds" cs1] obtain cs' where
    2: "clean_children reg g dry rs (tl scheds) cs1 = Some cs'"
    and f2: "repoExcept (cleaner cs') = repoExcept (cleaner cs1)"
      "globalTagExcept (cleaner cs') = globalTagExcept (cleaner cs1)"
      "concurrency (cleaner cs') = concurrency (cleaner cs1)"
      "\<forall>k. lookup (tagExcept (cleaner cs1)) k \<longrightarrow> lookup (tagExcept (cleaner cs')) k"
    and e2: "\<exists>es. errStrings cs' = errStrings cs1 @ es"
    and n2: "errStrings cs' = errStrings cs1 \<longrightarrow>
          map st_name (status cs') = map st_name (status cs1) @ map (\<lambda>r. repo g @ ''/'' @ r) rs"
    by blast
  have run: "clean_children reg g dry (r # rs) scheds cs = Some cs'"
    using 1 2 by (simp add: sc_def)
  have pre1: "\<exists>es. errStrings cs1 = errStrings cs @ es" using d1 by auto
  have pre: "\<exists>es. errStrings cs' = errStrings cs @ es" using pre1 e2 by auto
  have names: "map st_name (status cs') = map st_name (status cs) @ map (\<lambda>r. repo g @ ''/'' @ r) (r # rs)"
    if "errStrings cs' = errStrings cs"
  proof -
    from pre1 e2 obtain es1 es2 where es: "errStrings cs1 = errStrings cs @ es1" "errStrings cs' = errStrings cs1 @ es2"
      by blast
    with that have "es1 = []" "es2 = []" by simp_all
    then have a: "errStrings cs1 = errStrings cs" "errStrings cs' = errStrings cs1" using es by simp_all
    from a(1) d1 obtain line where "status cs1 = status cs @ [line]" "st_name line = repo g @ ''/'' @ r"
      by auto
    then show ?thesis using n2 a(2) by simp
  qed
  show ?case using run f1 f2 pre names by auto
qed


section \<open>The exception sets during a run\<close>

text \<open>
  Claim C9 as stated: the exception sets stay as they were built, and each repository gets
  a fresh Keep Set. It fails: (even in a dry run) after the child \<^verbatim>\<open>web\<close> the tag
  exception map of the cleaner holds \<^verbatim>\<open>gcr.io/pr/web:t1\<close>, which it did not hold before,
  and the Keep Set built next for another repository holds it too.
\<close>

theorem tag_exceptions_written_through_keeping:
  "\<not> lookup (tagExcept (cleaner start_state)) ''gcr.io/pr/web:t1''
   \<and> clean_child ok_registry ex_globals True ''web'' ([], []) start_state \<noteq> None
   \<and> lookup (tagExcept (cleaner (the (clean_child ok_registry ex_globals True ''web'' ([], []) start_state))))
        ''gcr.io/pr/web:t1''
   \<and> keep_set_has ex_globals (cleaner (the (clean_child ok_registry ex_globals True ''web'' ([], []) start_state)))
        ''gcr.io/pr/api'' [''v1''] ''gcr.io/pr/web:t1''"
  by code_simp

text \<open>
  Claim C9, amended. Over the whole loop, which always returns, the repository exceptions
  and the global tag exceptions stay as they were, and no entry of the tag exception map is
  lost; the Keep Set of a repository holds every entry of the tag exception map it is built
  from; and the deletion decision reads of the Keep Set only the qualified names of the
  manifest's own tags (it returns a verdict and a size, never a map).
\<close>

theorem exception_sets_frame:
  "(\<exists>cs'. clean_children reg g dry rs scheds cs = Some cs'
      \<and> repoExcept (cleaner cs') = repoExcept (cleaner cs)
      \<and> globalTagExcept (cleaner cs') = globalTagExcept (cleaner cs)
      \<and> (\<forall>k. lookup (tagExcept (cleaner cs)) k \<longrightarrow> lookup (tagExcept (cleaner cs')) k))
   \<and> (\<forall>name tags keeping k. build_keeping g c name tags = Some keeping \<and> lookup (tagExcept c) k
        \<longrightarrow> lookup keeping k)
   \<and> (\<forall>n m k1 k2 tot. (\<forall>t\<in>set (Tags m). lookup k1 (tagName_of n t) = lookup k2 (tagName_of n t))
        \<longrightarrow> shouldDelete c n m k1 tot = shouldDelete c n m k2 tot)"
proof -
  have A: "\<exists>cs'. clean_children reg g dry rs scheds cs = Some cs'
      \<and> repoExcept (cleaner cs') = repoExcept (cleaner cs)
      \<and> globalTagExcept (cleaner cs') = globalTagExcept (cleaner cs)
      \<and> (\<forall>k. lookup (tagExcept (cleaner cs)) k \<longrightarrow> lookup (tagExcept (cleaner cs')) k)"
    using clean_children_outcome [of reg g dry rs scheds cs] by blast
  have B: "\<forall>name tags keeping k. build_keeping g c name tags = Some keeping \<and> lookup (tagExcept c) k
        \<longrightarrow> lookup keeping k"
    using build_keeping_mono by blast
  have C: "\<forall>n m k1 k2 tot. (\<forall>t\<in>set (Tags m). lookup k1 (tagName_of n t) = lookup k2 (tagName_of n t))
        \<longrightarrow> shouldDelete c n m k1 tot = shouldDelete c n m k2 tot"
    using shouldDelete_reads by blast
  from A B C show ?thesis by blast
qed

theorem exception_sets_frame_witness:
  "lookup (tagExcept ex_cleaner) ''gcr.io/pr/app:a''
   \<and> (\<exists>cs'. clean_children ok_registry ex_globals False [''web''] []
              (start_state\<lparr>cleaner := ex_cleaner\<rparr>) = Some cs'
         \<and> repoExcept (cleaner cs') = repoExcept ex_cleaner
         \<and> globalTagExcept (cleaner cs') = globalTagExcept ex_cleaner
         \<and> lookup (tagExcept (cleaner cs')) ''gcr.io/pr/app:a'')"
proof -
  have h: "lookup (tagExcept ex_cleaner) ''gcr.io/pr/app:a''"
    by (simp add: ex_cleaner_def lookup_def)
  from exception_sets_frame [of ok_registry ex_globals False "[''web'']" "[]"
      "start_state\<lparr>cleaner := ex_cleaner\<rparr>" ex_cleaner]
  obtain cs' where "clean_children ok_registry ex_globals False [''web''] []
              (start_state\<lparr>cleaner := ex_cleaner\<rparr>) = Some cs'"
    "repoExcept (cleaner cs') = repoExcept (cleaner (start_state\<lparr>cleaner := ex_cleaner\<rparr>))"
    "globalTagExcept (cleaner cs') = globalTagExcept (cleaner (start_state\<lparr>cleaner := ex_cleaner\<rparr>))"
    "\<forall>k. lookup (tagExcept (cleaner (start_state\<lparr>cleaner := ex_cleaner\<rparr>))) k
        \<longrightarrow> lookup (tagExcept (cleaner cs')) k"
    by blast
  then show ?thesis using h by auto
qed

section \<open>The units and the trace\<close>

lemma is_digest_ref_digest [simp]: "is_digest_ref name (name @ CHR ''@'' # d)"
  by (simp add: is_digest_ref_def)

lemma is_digest_ref_tag [simp]: "\<not> is_digest_ref name (name @ CHR '':'' # t)"
  by (simp add: is_digest_ref_def)

lemma deleteOne_fst [simp]: "fst (deleteOne reg x log) = deleteOne_result reg x log"
  by (simp add: deleteOne_def)

lemma deleteOne_snd [simp]: "snd (deleteOne reg x log) = log @ [(x, deleteOne_result reg x log)]"
  by (simp add: deleteOne_def)

lemma mset_filter_update:
  assumes "k < length xs"
  shows "mset (map f (filter P (xs[k := y]))) + (if P (xs ! k) then {#f (xs ! k)#} else {#})
         = mset (map f (filter P xs)) + (if P y then {#f y#} else {#})"
proof -
  have a: "xs = take k xs @ xs ! k # drop (Suc k) xs" using assms by (rule id_take_nth_drop)
  have b: "xs[k := y] = take k xs @ y # drop (Suc k) xs" using assms by (rule upd_conv_take_nth_drop)
  have "mset (map f (filter P xs)) = mset (map f (filter P (take k xs @ xs ! k # drop (Suc k) xs)))"
    using a by simp
  then show ?thesis by (simp add: b)
qed

lemma unit_calls_set_task:
  assumes "k < length (tasks s)"
  shows "mset (unit_calls (set_task k p s))
           + (if called (pcs s ! k) then {#(fst (tasks s ! k), failure_of (pcs s ! k))#} else {#})
         = mset (unit_calls s)
           + (if called p then {#(fst (tasks s ! k), failure_of p)#} else {#})"
  using mset_filter_update [OF assms, of "\<lambda>t. (fst t, failure_of (snd t))" "\<lambda>t. called (snd t)"
      "(fst (tasks s ! k), p)"] assms
  by (simp add: unit_calls_def set_task_def pcs_nth split: if_splits)

lemma unit_calls_fields [simp]:
  "unit_calls (s\<lparr>calls := x\<rparr>) = unit_calls s" "unit_calls (s\<lparr>errs := y\<rparr>) = unit_calls s"
  "unit_calls (s\<lparr>del := z\<rparr>) = unit_calls s" "unit_calls (s\<lparr>todo := u\<rparr>) = unit_calls s"
  "unit_calls (s\<lparr>pending := v\<rparr>) = unit_calls s" "unit_calls (s\<lparr>kept_size := w\<rparr>) = unit_calls s"
  by (simp_all add: unit_calls_def)

lemma pending_refs_fields [simp]:
  "pending_refs name (s\<lparr>calls := x\<rparr>) = pending_refs name s"
  "pending_refs name (s\<lparr>errs := y\<rparr>) = pending_refs name s"
  "pending_refs name (s\<lparr>del := z\<rparr>) = pending_refs name s"
  "pending_refs name (s\<lparr>kept_size := w\<rparr>) = pending_refs name s"
  "pending_refs name (s\<lparr>tasks := ts\<rparr>) = pending_refs name s"
  "pending_refs name (set_task k p s) = pending_refs name s"
  by (simp_all add: pending_refs_def)

lemma trace_inv_same:
  assumes "trace_inv reg name log s"
    and "calls s' = calls s" and "mset (unit_calls s') = mset (unit_calls s)"
    and "set (map fst (tasks s') @ pending_refs name s') \<subseteq> set (map fst (tasks s) @ pending_refs name s)"
  shows "trace_inv reg name log s'"
  using assms unfolding trace_inv_def digest_calls_def new_calls_def by auto

lemma sound_from_snoc:
  assumes "sound_from reg n tr"
  shows "sound_from reg n (tr @ [(x, deleteOne_result reg x tr)])"
  unfolding sound_from_def
proof (intro allI impI)
  fix k assume k: "n \<le> k \<and> k < length (tr @ [(x, deleteOne_result reg x tr)])"
  show "snd ((tr @ [(x, deleteOne_result reg x tr)]) ! k)
        = deleteOne_result reg (fst ((tr @ [(x, deleteOne_result reg x tr)]) ! k))
            (take k (tr @ [(x, deleteOne_result reg x tr)]))"
  proof (cases "k < length tr")
    case True
    then show ?thesis using assms k by (simp add: sound_from_def nth_append)
  next
    case False
    with k have "k = length tr" by simp
    then show ?thesis by simp
  qed
qed

lemma trace_inv_call:
  assumes "trace_inv reg name log s"
    and "calls s' = calls s @ [(x, deleteOne_result reg x (calls s))]"
    and "mset (unit_calls s') = mset (unit_calls s)
           + (if is_digest_ref name x then {#(x, deleteOne_result reg x (calls s))#} else {#})"
    and "set (map fst (tasks s') @ pending_refs name s') \<subseteq> set (map fst (tasks s) @ pending_refs name s)"
  shows "trace_inv reg name log s'"
proof -
  from assms(1) have p: "take (length log) (calls s) = log"
    and sf: "sound_from reg (length log) (calls s)"
    and m: "mset (digest_calls name log s) = mset (unit_calls s)"
    and d: "\<forall>x\<in>set (map fst (tasks s) @ pending_refs name s). is_digest_ref name x"
    by (simp_all add: trace_inv_def)
  have "length (take (length log) (calls s)) = length log" by (simp only: p)
  then have le: "length log \<le> length (calls s)" by simp
  have 1: "take (length log) (calls s') = log" using p le by (simp add: assms(2))
  have 2: "sound_from reg (length log) (calls s')"
    unfolding assms(2) using sf by (rule sound_from_snoc)
  have 3: "mset (digest_calls name log s') = mset (unit_calls s')"
    using m le by (simp add: assms(2,3) digest_calls_def new_calls_def)
  have 4: "\<forall>x\<in>set (map fst (tasks s') @ pending_refs name s'). is_digest_ref name x"
    using d assms(4) by blast
  from 1 2 3 4 show ?thesis by (simp add: trace_inv_def)
qed

lemma trace_inv_unit_ref:
  assumes "trace_inv reg name log s" "k < length (tasks s)"
  shows "is_digest_ref name (fst (tasks s ! k))"
  using assms by (simp add: trace_inv_def)

lemma trace_inv_worker_step:
  assumes inv: "trace_inv reg name log s"
  shows "trace_inv reg name log (worker_step reg n k s)"
proof (cases rule: worker_step_cases [of reg n k s])
  case idle
  then show ?thesis using inv by simp
next
  case pick
  then show ?thesis
    using unit_calls_set_task [OF pick(1), of Taken]
    by (intro trace_inv_same [OF inv]) simp_all
next
  case skip
  then show ?thesis
    using unit_calls_set_task [OF skip(1), of Skipped]
    by (intro trace_inv_same [OF inv]) simp_all
next
  case start
  then show ?thesis
    using unit_calls_set_task [OF start(1), of Calling]
    by (intro trace_inv_same [OF inv]) simp_all
next
  case (call_fail e)
  let ?s' = "s\<lparr>calls := calls s @ [(fst (tasks s ! k), deleteOne_result reg (fst (tasks s ! k)) (calls s))]\<rparr>"
  have k': "k < length (tasks ?s')" using call_fail(1) by simp
  show ?thesis
    using call_fail unit_calls_set_task [OF k', of "Failed e"] trace_inv_unit_ref [OF inv call_fail(1)]
    by (intro trace_inv_call [OF inv, where x = "fst (tasks s ! k)"]) simp_all
next
  case call_ok
  let ?s' = "s\<lparr>calls := calls s @ [(fst (tasks s ! k), deleteOne_result reg (fst (tasks s ! k)) (calls s))]\<rparr>"
  have k': "k < length (tasks ?s')" using call_ok(1) by simp
  show ?thesis
    using call_ok unit_calls_set_task [OF k', of "Counting None"] trace_inv_unit_ref [OF inv call_ok(1)]
    by (intro trace_inv_call [OF inv, where x = "fst (tasks s ! k)"]) simp_all
next
  case (stored e)
  let ?s' = "s\<lparr>errs := errs s @ [(cause e, e)]\<rparr>"
  have k': "k < length (tasks ?s')" using stored(1) by simp
  show ?thesis
    using stored unit_calls_set_task [OF k', of "Recorded e"]
    by (intro trace_inv_same [OF inv]) simp_all
next
  case (dup e)
  then show ?thesis
    using unit_calls_set_task [OF dup(1), of "Counting (Some e)"]
    by (intro trace_inv_same [OF inv]) simp_all
next
  case (count r)
  let ?s' = "s\<lparr>del := del s + 1\<rparr>"
  have k': "k < length (tasks ?s')" using count(1) by simp
  show ?thesis
    using count unit_calls_set_task [OF k', of "Counted r"]
    by (intro trace_inv_same [OF inv]) simp_all
qed

lemma trace_inv_main_step:
  assumes inv: "trace_inv reg name log s"
  shows "trace_inv reg name log (main_step reg c name keeping False s)"
proof (cases rule: main_step_cases [of s reg c name keeping False])
  case idle
  then show ?thesis using inv by simp
next
  case (tag t ts ref)
  then show ?thesis
    by (intro trace_inv_call [OF inv, where x = "name @ '':'' @ t"]) (simp_all add: pending_refs_def)
next
  case (submit ref)
  then show ?thesis
    by (intro trace_inv_same [OF inv]) (simp_all add: pending_refs_def unit_calls_def)
next
  case (keep km rest)
  then show ?thesis
    by (intro trace_inv_same [OF inv]) (auto simp: pending_refs_def)
next
  case (dry_del km rest)
  then show ?thesis by simp
next
  case (take km rest)
  then show ?thesis
    by (intro trace_inv_same [OF inv]) (simp_all add: pending_refs_def)
qed

lemma trace_inv_step: "trace_inv reg name log s \<Longrightarrow> trace_inv reg name log (step reg c name keeping a s)"
  by (cases a) (simp_all add: trace_inv_main_step trace_inv_worker_step)

lemma trace_inv_initial: "trace_inv reg name log (initial_rstate ms log)"
  by (auto simp: trace_inv_def initial_rstate_def sound_from_def digest_calls_def new_calls_def
      unit_calls_def pending_refs_def)

lemma refs_distinct_worker_step:
  assumes "refs_distinct name s"
  shows "refs_distinct name (worker_step reg n k s)"
  by (cases rule: worker_step_cases [of reg n k s]) (use assms in \<open>simp_all add: refs_distinct_def\<close>)

lemma refs_distinct_main_step:
  assumes inv: "refs_distinct name s"
  shows "refs_distinct name (main_step reg c name keeping False s)"
proof (cases rule: main_step_cases [of s reg c name keeping False])
  case idle
  then show ?thesis using inv by simp
next
  case (tag t ts ref)
  then show ?thesis using inv by (simp add: refs_distinct_def pending_refs_def)
next
  case (submit ref)
  then show ?thesis using inv by (simp add: refs_distinct_def pending_refs_def)
next
  case (keep km rest)
  then show ?thesis using inv by (simp add: refs_distinct_def pending_refs_def)
next
  case (dry_del km rest)
  then show ?thesis by simp
next
  case (take km rest)
  then show ?thesis using inv by (simp add: refs_distinct_def pending_refs_def)
qed

lemma refs_distinct_step: "refs_distinct name s \<Longrightarrow> refs_distinct name (step reg c name keeping a s)"
  by (cases a) (simp_all add: refs_distinct_main_step refs_distinct_worker_step)

lemma refs_distinct_initial:
  assumes "distinct (map fst ms)"
  shows "refs_distinct name (initial_rstate ms log)"
proof -
  have "inj_on (\<lambda>d. name @ ''@'' @ d) (set (map fst ms))" by (simp add: inj_on_def)
  then have "distinct (map (\<lambda>d. name @ ''@'' @ d) (map fst ms))"
    using assms by (auto simp: distinct_map intro: comp_inj_on)
  then show ?thesis by (simp add: refs_distinct_def initial_rstate_def pending_refs_def comp_def)
qed

lemma real_run_trace_inv:
  "trace_inv reg name log (run_repo reg c name keeping False sched (initial_rstate ms log))"
  using trace_inv_initial by (rule run_repo_invariant) (rule trace_inv_step)

lemma real_run_refs_distinct:
  assumes "distinct (map fst ms)"
  shows "refs_distinct name (run_repo reg c name keeping False sched (initial_rstate ms log))"
  using refs_distinct_initial [OF assms] by (rule run_repo_invariant) (rule refs_distinct_step)

lemma set_unit_calls:
  "x \<in> set (unit_calls s) \<longleftrightarrow> (\<exists>t\<in>set (tasks s). called (snd t) \<and> x = (fst t, failure_of (snd t)))"
  by (auto simp: unit_calls_def)

lemma trace_inv_digest_set:
  assumes "trace_inv reg name log s"
  shows "set (digest_calls name log s) = set (unit_calls s)"
proof -
  have "mset (digest_calls name log s) = mset (unit_calls s)" using assms by (simp add: trace_inv_def)
  then show ?thesis by (rule mset_eq_setD)
qed

lemma digest_calls_subset: "set (digest_calls name log s) \<subseteq> set (new_calls log s)"
  by (auto simp: digest_calls_def)

lemma length_unit_calls: "length (unit_calls s) = length (filter called (pcs s))"
  unfolding unit_calls_def pcs_def by (simp add: filter_map comp_def del: map_snd_tasks)

lemma trace_inv_digest_length:
  assumes "trace_inv reg name log s"
  shows "length (digest_calls name log s) = length (filter called (pcs s))"
proof -
  have "mset (digest_calls name log s) = mset (unit_calls s)" using assms by (simp add: trace_inv_def)
  then have "size (mset (digest_calls name log s)) = size (mset (unit_calls s))" by (simp only:)
  then show ?thesis by (simp add: length_unit_calls)
qed

lemma called_returned_split:
  "\<forall>p\<in>set ps. returned p \<Longrightarrow>
   length (filter called ps) = length (filter counted ps) + length (filter recorded ps)"
proof (induction ps)
  case Nil
  then show ?case by simp
next
  case (Cons p ps)
  then show ?case by (cases p) simp_all
qed

lemma all_returned_set:
  assumes "\<forall>i<length (tasks s). returned (pcs s ! i)"
  shows "\<forall>p\<in>set (pcs s). returned p"
  using assms by (auto simp: in_set_conv_nth)

lemma end_of_run_counts:
  assumes "trace_inv reg name log s" "counts_ok s" "errs_ok s"
    and "\<forall>i<length (tasks s). returned (pcs s ! i)"
  shows "int (length (digest_calls name log s)) = del s + int (length (errs s))"
proof -
  have "length (filter called (pcs s)) = length (filter counted (pcs s)) + length (filter recorded (pcs s))"
    using all_returned_set [OF assms(4)] by (rule called_returned_split)
  then show ?thesis
    using assms(2,3) trace_inv_digest_length [OF assms(1)] by (simp add: counts_ok_def errs_ok_def)
qed

lemma errs_entry_in_trace:
  assumes "trace_inv reg name log s" "errs_ok s" "ce \<in> set (errs s)"
  shows "cause (snd ce) = fst ce \<and> (\<exists>x. (x, Some (snd ce)) \<in> set (digest_calls name log s))"
proof -
  from assms(2,3) have c: "cause (snd ce) = fst ce" and "Recorded (snd ce) \<in> set (pcs s)"
    by (auto simp: errs_ok_def)
  then obtain i where i: "i < length (tasks s)" "pcs s ! i = Recorded (snd ce)"
    by (auto simp: in_set_conv_nth)
  define t where "t = tasks s ! i"
  have "t \<in> set (tasks s)" "snd t = Recorded (snd ce)"
    using i by (simp_all add: t_def pcs_nth)
  then have "t \<in> set (tasks s) \<and> called (snd t) \<and> failure_of (snd t) = Some (snd ce)" by simp
  then have "(fst t, Some (snd ce)) \<in> set (unit_calls s)"
    unfolding set_unit_calls by (intro bexI [of _ t]) simp_all
  then have "(fst t, Some (snd ce)) \<in> set (digest_calls name log s)"
    using trace_inv_digest_set [OF assms(1)] by simp
  then show ?thesis using c by blast
qed

lemma end_of_run_causes:
  assumes "trace_inv reg name log s" "errs_ok s"
    and "\<forall>i<length (tasks s). returned (pcs s ! i)"
  shows "set (map fst (errs s)) = {cause e |e. \<exists>x. (x, Some e) \<in> set (digest_calls name log s)}"
proof (intro equalityI subsetI)
  fix k assume "k \<in> set (map fst (errs s))"
  then obtain ce where ce: "ce \<in> set (errs s)" "k = fst ce" by auto
  from errs_entry_in_trace [OF assms(1,2) ce(1)] ce(2)
  have "k = cause (snd ce) \<and> (\<exists>x. (x, Some (snd ce)) \<in> set (digest_calls name log s))" by simp
  then show "k \<in> {cause e |e. \<exists>x. (x, Some e) \<in> set (digest_calls name log s)}" by auto
next
  fix k assume "k \<in> {cause e |e. \<exists>x. (x, Some e) \<in> set (digest_calls name log s)}"
  then obtain e x where e: "k = cause e" "(x, Some e) \<in> set (digest_calls name log s)" by blast
  then have "(x, Some e) \<in> set (unit_calls s)" using trace_inv_digest_set [OF assms(1)] by simp
  then obtain t where t: "t \<in> set (tasks s)" "called (snd t)" "failure_of (snd t) = Some e"
    unfolding set_unit_calls by auto
  from t(1) obtain j where "j < length (tasks s)" "tasks s ! j = t" by (auto simp: in_set_conv_nth)
  then have "j < length (pcs s)" "pcs s ! j = snd t" by (simp_all add: pcs_nth)
  then have p: "snd t \<in> set (pcs s)" by (metis nth_mem)
  then have "returned (snd t)" using all_returned_set [OF assms(3)] by blast
  then have "snd t \<noteq> Failed e" by auto
  then have "cause e \<in> fst ` set (errs s)" using assms(2) p t(3) by (auto simp: errs_ok_def)
  then show "k \<in> set (map fst (errs s))" using e(1) by simp
qed

lemma end_of_run_no_error:
  assumes "trace_inv reg name log s" "errs_ok s"
    and "\<forall>i<length (tasks s). returned (pcs s ! i)" and "errs s = []"
  shows "\<forall>en\<in>set (digest_calls name log s). snd en = None"
proof
  fix en assume en: "en \<in> set (digest_calls name log s)"
  show "snd en = None"
  proof (cases "snd en")
    case None
    then show ?thesis .
  next
    case (Some e)
    then have "(fst en, Some e) \<in> set (digest_calls name log s)" using en by (cases en) simp
    then have "cause e \<in> set (map fst (errs s))"
      unfolding end_of_run_causes [OF assms(1,2,3)] by blast
    then show ?thesis using assms(4) by simp
  qed
qed




lemma set_task_ref_nth [simp]:
  "i < length (tasks s) \<Longrightarrow> fst (tasks (set_task k p s) ! i) = fst (tasks s ! i)"
  by (cases "k = i") (simp_all add: set_task_def)

lemma unit_ref_step:
  assumes "i < length (tasks s) \<and> fst (tasks s ! i) = x"
  shows "i < length (tasks (step reg c name keeping a s))
         \<and> fst (tasks (step reg c name keeping a s) ! i) = x"
proof (cases a)
  case Main
  show ?thesis unfolding Main step_Main
    by (cases rule: main_step_cases [of s reg c name keeping False])
       (use assms in \<open>simp_all add: nth_append\<close>)
next
  case (Worker k)
  show ?thesis unfolding Worker step_Worker
    by (cases rule: worker_step_cases [of reg "pool_size c" k s])
       (use assms in \<open>simp_all\<close>)
qed

lemma uncalled_unit_no_entry:
  assumes inv: "trace_inv reg name log s" and d: "refs_distinct name s"
    and i: "i < length (tasks s)" and nc: "\<not> called (pcs s ! i)"
  shows "(fst (tasks s ! i), r) \<notin> set (new_calls log s)"
proof
  assume a: "(fst (tasks s ! i), r) \<in> set (new_calls log s)"
  have "is_digest_ref name (fst (tasks s ! i))" using inv i by (rule trace_inv_unit_ref)
  with a have "(fst (tasks s ! i), r) \<in> set (digest_calls name log s)"
    by (simp add: digest_calls_def)
  then have "(fst (tasks s ! i), r) \<in> set (unit_calls s)"
    using trace_inv_digest_set [OF inv] by simp
  then obtain t where t: "t \<in> set (tasks s)" "fst t = fst (tasks s ! i)" "called (snd t)"
    unfolding set_unit_calls by auto
  from t(1) obtain j where j: "j < length (tasks s)" "tasks s ! j = t" by (auto simp: in_set_conv_nth)
  have "distinct (map fst (tasks s))" using d by (simp add: refs_distinct_def)
  moreover have "map fst (tasks s) ! j = map fst (tasks s) ! i" using i j t(2) by simp
  ultimately have "j = i" using i j(1) nth_eq_iff_index_eq [of "map fst (tasks s)" j i] by simp
  then show False using t(3) j(2) nc i by (simp add: pcs_nth)
qed

lemma called_unit_entry:
  assumes inv: "trace_inv reg name log s" and i: "i < length (tasks s)" and c: "called (pcs s ! i)"
  shows "(fst (tasks s ! i), failure_of (pcs s ! i)) \<in> set (new_calls log s)"
proof -
  have "tasks s ! i \<in> set (tasks s)" using i by simp
  then have "(fst (tasks s ! i), failure_of (snd (tasks s ! i))) \<in> set (unit_calls s)"
    using c i unfolding set_unit_calls by (intro bexI [of _ "tasks s ! i"]) (simp_all add: pcs_nth)
  then have "(fst (tasks s ! i), failure_of (pcs s ! i)) \<in> set (digest_calls name log s)"
    using trace_inv_digest_set [OF inv] i by (simp add: pcs_nth)
  then show ?thesis using digest_calls_subset by blast
qed

lemma ran_returned_called: "ran p \<Longrightarrow> returned p \<Longrightarrow> called p"
  by (cases p) simp_all

section \<open>Fail-fast suppression\<close>

text \<open>
  Claim C5. Take any real run of one repository's pool over manifests of distinct digests
  (they are the keys of a map), cut at any point (after \<open>sched1\<close>) and continued in any
  way (\<open>sched2\<close>, then the end of the main loop and \<^verbatim>\<open>StopWait\<close>). If an error is
  recorded at the cut, every unit that has not passed the test of \<^verbatim>\<open>errs\<close> by then
  (not yet submitted, queued, or just taken by a worker) returns at that test, and the
  trace of the run holds no call of \<^verbatim>\<open>deleteOne\<close> for its reference; its step at the
  test leaves the trace as it is. A unit that stands before its call makes the call at its
  next step, whatever \<^verbatim>\<open>errs\<close> holds. Every unit past the test at the cut runs to one
  of its two later ends, and the trace holds its call of \<^verbatim>\<open>deleteOne\<close> with the answer
  the unit acted on. Every entry the run added to the trace holds the answer of
  \<^verbatim>\<open>deleteOne\<close>. When \<^verbatim>\<open>StopWait\<close> returns, the main loop is over and every
  submitted unit has returned.
\<close>

theorem fail_fast_suppression:
  assumes "distinct (map fst ms)"
  shows
  "let s1 = exec reg c name keeping sched1 (initial_rstate ms log);
       s2 = run_repo reg c name keeping False (sched1 @ sched2) (initial_rstate ms log)
   in (\<forall>i<length (tasks s2). errs s1 \<noteq> []
            \<and> (length (tasks s1) \<le> i \<or> pcs s1 ! i = Queued \<or> pcs s1 ! i = Taken)
          \<longrightarrow> pcs s2 ! i = Skipped
              \<and> (\<forall>r. (fst (tasks s2 ! i), r) \<notin> set (new_calls log s2)))
      \<and> (\<forall>i<length (tasks s1). errs s1 \<noteq> [] \<and> pcs s1 ! i = Taken
          \<longrightarrow> calls (worker_step reg (pool_size c) i s1) = calls s1
              \<and> pcs (worker_step reg (pool_size c) i s1) ! i = Skipped)
      \<and> (\<forall>i<length (tasks s1). pcs s1 ! i = Calling
          \<longrightarrow> calls (worker_step reg (pool_size c) i s1)
                = calls s1 @ [(fst (tasks s1 ! i), deleteOne_result reg (fst (tasks s1 ! i)) (calls s1))])
      \<and> (\<forall>i<length (tasks s1). ran (pcs s1 ! i)
          \<longrightarrow> i < length (tasks s2) \<and> fst (tasks s2 ! i) = fst (tasks s1 ! i)
              \<and> ran (pcs s2 ! i) \<and> returned (pcs s2 ! i)
              \<and> (fst (tasks s2 ! i), failure_of (pcs s2 ! i)) \<in> set (new_calls log s2))
      \<and> take (length log) (calls s2) = log
      \<and> sound_from reg (length log) (calls s2)
      \<and> main_done s2
      \<and> (\<forall>i<length (tasks s2). returned (pcs s2 ! i))"
proof -
  define s1 where "s1 = exec reg c name keeping sched1 (initial_rstate ms log)"
  define s2 where "s2 = run_repo reg c name keeping False (sched1 @ sched2) (initial_rstate ms log)"
  have s2: "s2 = stopWait reg (pool_size c) (finish_main reg c name keeping False
       (exec reg c name keeping sched2 s1))"
    by (simp add: s2_def s1_def run_repo_real)
  have ret: "\<forall>i<length (tasks s2). returned (pcs s2 ! i)"
    unfolding s2_def using fifo_initial by (rule run_repo_all_returned)
  have md: "main_done s2" unfolding s2_def by (rule run_repo_main_done)
  have inv: "trace_inv reg name log s2" unfolding s2_def by (rule real_run_trace_inv)
  have dist: "refs_distinct name s2" unfolding s2_def using assms by (rule real_run_refs_distinct)
  have A: "\<forall>i<length (tasks s2). errs s1 \<noteq> []
            \<and> (length (tasks s1) \<le> i \<or> pcs s1 ! i = Queued \<or> pcs s1 ! i = Taken)
          \<longrightarrow> pcs s2 ! i = Skipped
              \<and> (\<forall>r. (fst (tasks s2 ! i), r) \<notin> set (new_calls log s2))"
  proof (intro allI impI, elim conjE)
    fix i
    assume that: "i < length (tasks s2)" "errs s1 \<noteq> []"
      "length (tasks s1) \<le> i \<or> pcs s1 ! i = Queued \<or> pcs s1 ! i = Taken"
    have "suppressed i s1" using that by (auto simp: suppressed_def)
    then have "suppressed i s2"
      unfolding s2 by (rule real_run_invariant) (rule suppressed_step)
    then have "pcs s2 ! i = Queued \<or> pcs s2 ! i = Taken \<or> pcs s2 ! i = Skipped"
      using that(1) by (simp add: suppressed_def)
    moreover have "returned (pcs s2 ! i)" using ret that(1) by simp
    ultimately have sk: "pcs s2 ! i = Skipped" by auto
    then have "\<not> called (pcs s2 ! i)" by simp
    with inv dist that(1) have "(fst (tasks s2 ! i), r) \<notin> set (new_calls log s2)" for r
      by (rule uncalled_unit_no_entry)
    with sk show "pcs s2 ! i = Skipped \<and> (\<forall>r. (fst (tasks s2 ! i), r) \<notin> set (new_calls log s2))"
      by simp
  qed
  have B: "\<forall>i<length (tasks s1). errs s1 \<noteq> [] \<and> pcs s1 ! i = Taken
          \<longrightarrow> calls (worker_step reg (pool_size c) i s1) = calls s1
              \<and> pcs (worker_step reg (pool_size c) i s1) ! i = Skipped"
    by (simp add: worker_step_Taken)
  have B2: "\<forall>i<length (tasks s1). pcs s1 ! i = Calling
          \<longrightarrow> calls (worker_step reg (pool_size c) i s1)
                = calls s1 @ [(fst (tasks s1 ! i), deleteOne_result reg (fst (tasks s1 ! i)) (calls s1))]"
    by (simp add: worker_step_Calling)
  have C: "\<forall>i<length (tasks s1). ran (pcs s1 ! i)
          \<longrightarrow> i < length (tasks s2) \<and> fst (tasks s2 ! i) = fst (tasks s1 ! i)
              \<and> ran (pcs s2 ! i) \<and> returned (pcs s2 ! i)
              \<and> (fst (tasks s2 ! i), failure_of (pcs s2 ! i)) \<in> set (new_calls log s2)"
  proof (intro allI impI)
    fix i
    assume that: "i < length (tasks s1)" "ran (pcs s1 ! i)"
    have "under_way i s1" using that by (simp add: under_way_def)
    then have "under_way i s2"
      unfolding s2 by (rule real_run_invariant) (rule under_way_step)
    then have u: "i < length (tasks s2)" "ran (pcs s2 ! i)" "returned (pcs s2 ! i)"
      using ret by (simp_all add: under_way_def)
    have "i < length (tasks s1) \<and> fst (tasks s1 ! i) = fst (tasks s1 ! i)" using that(1) by simp
    then have "i < length (tasks s2) \<and> fst (tasks s2 ! i) = fst (tasks s1 ! i)"
      unfolding s2 by (rule real_run_invariant) (rule unit_ref_step)
    moreover have "called (pcs s2 ! i)" using u(2,3) by (rule ran_returned_called)
    with inv u(1) have "(fst (tasks s2 ! i), failure_of (pcs s2 ! i)) \<in> set (new_calls log s2)"
      by (rule called_unit_entry)
    ultimately show "i < length (tasks s2) \<and> fst (tasks s2 ! i) = fst (tasks s1 ! i)
              \<and> ran (pcs s2 ! i) \<and> returned (pcs s2 ! i)
              \<and> (fst (tasks s2 ! i), failure_of (pcs s2 ! i)) \<in> set (new_calls log s2)"
      using u by simp
  qed
  have D: "take (length log) (calls s2) = log" "sound_from reg (length log) (calls s2)"
    using inv by (simp_all add: trace_inv_def)
  show ?thesis
    unfolding Let_def s1_def [symmetric] s2_def [symmetric]
    by (intro conjI A B B2 C D md ret)
qed

theorem fail_fast_suppression_witness:
  "distinct (map fst web_manifests)
   \<and> (let s1 = exec denied_registry plain_cleaner ''gcr.io/pr/web'' web_keeping first_failure
              (initial_rstate web_manifests []);
          s2 = run_repo denied_registry plain_cleaner ''gcr.io/pr/web'' web_keeping False
              (first_failure @ []) (initial_rstate web_manifests [])
      in errs s1 \<noteq> [] \<and> length (tasks s1) = 2 \<and> pcs s1 ! 1 = Calling \<and> length (tasks s2) = 3
         \<and> pcs s2 ! 2 = Skipped
         \<and> (\<forall>r. (fst (tasks s2 ! 2), r) \<notin> set (new_calls [] s2))
         \<and> returned (pcs s2 ! 1)
         \<and> (fst (tasks s2 ! 1), failure_of (pcs s2 ! 1)) \<in> set (new_calls [] s2)
         \<and> main_done s2)"
proof -
  define s1 where "s1 = exec denied_registry plain_cleaner ''gcr.io/pr/web'' web_keeping first_failure
              (initial_rstate web_manifests [])"
  define s2 where "s2 = run_repo denied_registry plain_cleaner ''gcr.io/pr/web'' web_keeping False
              (first_failure @ []) (initial_rstate web_manifests [])"
  have d: "distinct (map fst web_manifests)" by (simp add: web_manifests_def)
  have h: "errs s1 \<noteq> []" "length (tasks s1) = 2" "pcs s1 ! 1 = Calling" "length (tasks s2) = 3"
    unfolding s1_def s2_def by code_simp+
  note t = fail_fast_suppression [OF d, of denied_registry plain_cleaner "''gcr.io/pr/web''" web_keeping
      first_failure "[]" "[]", unfolded Let_def, folded s1_def s2_def]
  note a = t [THEN conjunct1, rule_format, of 2]
  note c = t [THEN conjunct2, THEN conjunct2, THEN conjunct2, THEN conjunct1, rule_format, of 1]
  have "pcs s2 ! 2 = Skipped \<and> (\<forall>r. (fst (tasks s2 ! 2), r) \<notin> set (new_calls [] s2))"
    using a h by simp
  moreover have "returned (pcs s2 ! 1)
      \<and> (fst (tasks s2 ! 1), failure_of (pcs s2 ! 1)) \<in> set (new_calls [] s2)"
    using c h by auto
  moreover have "main_done s2"
    by (rule t [THEN conjunct2, THEN conjunct2, THEN conjunct2, THEN conjunct2, THEN conjunct2,
          THEN conjunct2, THEN conjunct1])
  ultimately show ?thesis
    unfolding Let_def s1_def [symmetric] s2_def [symmetric] using h d by simp
qed

section \<open>The counter of deleted manifests\<close>

lemma real_child_facts:
  "counts_ok (child_pool_state reg g False r ch cs keeping tags)"
  "errs_ok (child_pool_state reg g False r ch cs keeping tags)"
  "\<forall>i<length (tasks (child_pool_state reg g False r ch cs keeping tags)).
      returned (pcs (child_pool_state reg g False r ch cs keeping tags) ! i)"
  "trace_inv reg (repo g @ ''/'' @ r) (dlog cs) (child_pool_state reg g False r ch cs keeping tags)"
  unfolding child_pool_state_def by (rule real_run_facts real_run_trace_inv)+

lemma call_step:
  assumes "i < length (tasks s)" "pcs s ! i = Calling"
  shows "i < length (tasks (worker_step reg n i s))"
    "pcs (worker_step reg n i s) ! i
       = (case deleteOne_result reg (fst (tasks s ! i)) (calls s) of
            Some e \<Rightarrow> Failed e | None \<Rightarrow> Counting None)"
    "calls (worker_step reg n i s)
       = calls s @ [(fst (tasks s ! i), deleteOne_result reg (fst (tasks s ! i)) (calls s))]"
    "errs (worker_step reg n i s) = errs s" "del (worker_step reg n i s) = del s"
  using assms by (simp_all add: worker_step_Calling)

lemma failed_step_known:
  assumes "i < length (tasks s)" "pcs s ! i = Failed e" "map_of (errs s) (cause e) \<noteq> None"
  shows "i < length (tasks (worker_step reg n i s))"
    "pcs (worker_step reg n i s) ! i = Counting (Some e)"
    "calls (worker_step reg n i s) = calls s"
    "errs (worker_step reg n i s) = errs s" "del (worker_step reg n i s) = del s"
  using assms by (simp_all add: worker_step_Failed)

lemma failed_step_new:
  assumes "i < length (tasks s)" "pcs s ! i = Failed e" "map_of (errs s) (cause e) = None"
  shows "i < length (tasks (worker_step reg n i s))"
    "pcs (worker_step reg n i s) ! i = Recorded e"
    "calls (worker_step reg n i s) = calls s"
    "errs (worker_step reg n i s) = errs s @ [(cause e, e)]" "del (worker_step reg n i s) = del s"
  using assms by (simp_all add: worker_step_Failed)

lemma counting_step:
  assumes "i < length (tasks s)" "pcs s ! i = Counting r"
  shows "i < length (tasks (worker_step reg n i s))"
    "pcs (worker_step reg n i s) ! i = Counted r"
    "calls (worker_step reg n i s) = calls s"
    "errs (worker_step reg n i s) = errs s" "del (worker_step reg n i s) = del s + 1"
  using assms by (simp_all add: worker_step_Counting)

lemma refused_known_cause_counted:
  assumes i: "i < length (tasks s)" and p: "pcs s ! i = Calling"
    and r: "deleteOne_result reg (fst (tasks s ! i)) (calls s) = Some e"
    and k: "map_of (errs s) (cause e) \<noteq> None"
  shows "let s' = worker_step reg n i (worker_step reg n i (worker_step reg n i s))
         in del s' = del s + 1 \<and> pcs s' ! i = Counted (Some e) \<and> errs s' = errs s
            \<and> calls s' = calls s @ [(fst (tasks s ! i), Some e)]"
proof -
  define s1 where "s1 = worker_step reg n i s"
  define s2 where "s2 = worker_step reg n i s1"
  define s3 where "s3 = worker_step reg n i s2"
  note c = call_step [OF i p, of reg n, folded s1_def]
  have p1: "pcs s1 ! i = Failed e" using c(2) r by simp
  have k1: "map_of (errs s1) (cause e) \<noteq> None" using k c(4) by simp
  note f = failed_step_known [OF c(1) p1 k1, of reg n, folded s2_def]
  note t = counting_step [OF f(1,2), of reg n, folded s3_def]
  have "del s3 = del s + 1 \<and> pcs s3 ! i = Counted (Some e) \<and> errs s3 = errs s
        \<and> calls s3 = calls s @ [(fst (tasks s ! i), Some e)]"
    using c f t r by simp
  then show ?thesis by (simp add: Let_def s3_def s2_def s1_def)
qed

lemma refused_new_cause_not_counted:
  assumes i: "i < length (tasks s)" and p: "pcs s ! i = Calling"
    and r: "deleteOne_result reg (fst (tasks s ! i)) (calls s) = Some e"
    and k: "map_of (errs s) (cause e) = None"
  shows "let s' = worker_step reg n i (worker_step reg n i s)
         in del s' = del s \<and> pcs s' ! i = Recorded e \<and> errs s' = errs s @ [(cause e, e)]
            \<and> calls s' = calls s @ [(fst (tasks s ! i), Some e)]"
proof -
  define s1 where "s1 = worker_step reg n i s"
  define s2 where "s2 = worker_step reg n i s1"
  note c = call_step [OF i p, of reg n, folded s1_def]
  have p1: "pcs s1 ! i = Failed e" using c(2) r by simp
  have k1: "map_of (errs s1) (cause e) = None" using k c(4) by simp
  note f = failed_step_new [OF c(1) p1 k1, of reg n, folded s2_def]
  have "del s2 = del s \<and> pcs s2 ! i = Recorded e \<and> errs s2 = errs s @ [(cause e, e)]
        \<and> calls s2 = calls s @ [(fst (tasks s ! i), Some e)]"
    using c f r by simp
  then show ?thesis by (simp add: Let_def s2_def s1_def)
qed

lemma accepted_counted:
  assumes i: "i < length (tasks s)" and p: "pcs s ! i = Calling"
    and r: "deleteOne_result reg (fst (tasks s ! i)) (calls s) = None"
  shows "let s' = worker_step reg n i (worker_step reg n i s)
         in del s' = del s + 1 \<and> pcs s' ! i = Counted None \<and> errs s' = errs s
            \<and> calls s' = calls s @ [(fst (tasks s ! i), None)]"
proof -
  define s1 where "s1 = worker_step reg n i s"
  define s2 where "s2 = worker_step reg n i s1"
  note c = call_step [OF i p, of reg n, folded s1_def]
  have p1: "pcs s1 ! i = Counting None" using c(2) r by simp
  note t = counting_step [OF c(1) p1, of reg n, folded s2_def]
  have "del s2 = del s + 1 \<and> pcs s2 ! i = Counted None \<and> errs s2 = errs s
        \<and> calls s2 = calls s @ [(fst (tasks s ! i), None)]"
    using c t r by simp
  then show ?thesis by (simp add: Let_def s2_def s1_def)
qed

text \<open>
  Claim C10 as stated: the reported count can include deletions that failed. In the run
  where \<^verbatim>\<open>deleteOne\<close> refuses two digest deletions with the same cause, the second is
  counted (\<^verbatim>\<open>del = 1\<close>), but no status line is reported for the repository:
  \<^verbatim>\<open>Clean\<close> returns the error alone.
\<close>

theorem failed_deletion_counted_but_no_status_line:
  "del (child_pool_state denied_registry ex_globals False ''web'' (both_fail, []) start_state
        web_keeping web_listing) = 1
   \<and> digest_calls ''gcr.io/pr/web'' []
       (child_pool_state denied_registry ex_globals False ''web'' (both_fail, []) start_state
          web_keeping web_listing)
     = [(''gcr.io/pr/web@sha256:aaaaaaaaaaaaaaaaaaaaaaaaaaaaaaaaaaaaaaaaaaaaaaaaaaaaaaaaaaaaaaaa'',
         Some \<lparr>msg = ''Failed to delete gcr.io/pr/web@sha256:aaaaaaaaaaaaaaaaaaaaaaaaaaaaaaaaaaaaaaaaaaaaaaaaaaaaaaaaaaaaaaaa: permission denied'', cause = ''permission denied''\<rparr>),
        (''gcr.io/pr/web@sha256:bbbbbbbbbbbbbbbbbbbbbbbbbbbbbbbbbbbbbbbbbbbbbbbbbbbbbbbbbbbbbbbb'',
         Some \<lparr>msg = ''Failed to delete gcr.io/pr/web@sha256:bbbbbbbbbbbbbbbbbbbbbbbbbbbbbbbbbbbbbbbbbbbbbbbbbbbbbbbbbbbbbbbb: permission denied'', cause = ''permission denied''\<rparr>)]
   \<and> map_option status (clean_child denied_registry ex_globals False ''web'' (both_fail, []) start_state) = Some []
   \<and> Clean denied_registry ex_globals plain_cleaner False [(both_fail, [])]
     = Some ([], Some (OneError ''Failed to delete gcr.io/pr/web@sha256:aaaaaaaaaaaaaaaaaaaaaaaaaaaaaaaaaaaaaaaaaaaaaaaaaaaaaaaaaaaaaaaa: permission denied''))"
  by code_simp

text \<open>
  Claim C10, amended. A unit whose call of \<^verbatim>\<open>deleteOne\<close> is refused with a cause
  already in \<^verbatim>\<open>errs\<close> goes on to increment \<^verbatim>\<open>del\<close>; one refused with a cause not
  yet in \<^verbatim>\<open>errs\<close> stores its error and returns without counting; one whose call is
  accepted counts. So at the end of a real run of a child that resolves and lists,
  \<^verbatim>\<open>del\<close> and the number of recorded causes add up to the number of digest deletions
  the trace holds, and the recorded causes are, once each, the causes of the refused ones.
  But the status line is appended only when \<^verbatim>\<open>errs\<close> is empty, and then every digest
  deletion of the trace was accepted and the reported count is their number: a reported
  count never includes a failed deletion. Every entry added to the trace holds the answer
  of \<^verbatim>\<open>deleteOne\<close>.
\<close>

theorem counted_failures_never_reported:
  assumes "gcr_NewRepository reg (repo g @ ''/'' @ r) = None"
    and "gcr_List reg (repo g @ ''/'' @ r) = Inr tags"
  shows "\<exists>keeping cs'.
      build_keeping g (cleaner cs) (repo g @ ''/'' @ r) (TagNames tags) = Some keeping
      \<and> clean_child reg g False r ch cs = Some cs'
      \<and> (let s = child_pool_state reg g False r ch cs keeping tags;
             dc = digest_calls (repo g @ ''/'' @ r) (dlog cs) s
         in int (length dc) = del s + int (length (errs s))
            \<and> distinct (map fst (errs s))
            \<and> set (map fst (errs s)) = {cause e |e. \<exists>x. (x, Some e) \<in> set dc}
            \<and> take (length (dlog cs)) (calls s) = dlog cs
            \<and> sound_from reg (length (dlog cs)) (calls s)
            \<and> (errs s \<noteq> [] \<longrightarrow> status cs' = status cs)
            \<and> (errs s = [] \<longrightarrow> status cs' = status cs @ [child_line g False r tags s]
                  \<and> st_deleted (child_line g False r tags s) = int (length dc)
                  \<and> (\<forall>en\<in>set dc. snd en = None)))
      \<and> (\<forall>s i e. i < length (tasks s) \<and> pcs s ! i = Calling
             \<and> deleteOne_result reg (fst (tasks s ! i)) (calls s) = Some e
             \<and> map_of (errs s) (cause e) \<noteq> None \<longrightarrow>
            (let s' = worker_step reg n i (worker_step reg n i (worker_step reg n i s))
             in del s' = del s + 1 \<and> pcs s' ! i = Counted (Some e) \<and> errs s' = errs s
                \<and> calls s' = calls s @ [(fst (tasks s ! i), Some e)]))
      \<and> (\<forall>s i e. i < length (tasks s) \<and> pcs s ! i = Calling
             \<and> deleteOne_result reg (fst (tasks s ! i)) (calls s) = Some e
             \<and> map_of (errs s) (cause e) = None \<longrightarrow>
            (let s' = worker_step reg n i (worker_step reg n i s)
             in del s' = del s \<and> pcs s' ! i = Recorded e \<and> errs s' = errs s @ [(cause e, e)]
                \<and> calls s' = calls s @ [(fst (tasks s ! i), Some e)]))
      \<and> (\<forall>s i. i < length (tasks s) \<and> pcs s ! i = Calling
             \<and> deleteOne_result reg (fst (tasks s ! i)) (calls s) = None \<longrightarrow>
            (let s' = worker_step reg n i (worker_step reg n i s)
             in del s' = del s + 1 \<and> pcs s' ! i = Counted None \<and> errs s' = errs s
                \<and> calls s' = calls s @ [(fst (tasks s ! i), None)]))"
proof -
  obtain keeping where k: "build_keeping g (cleaner cs) (repo g @ ''/'' @ r) (TagNames tags) = Some keeping"
    using build_keeping_total by blast
  define s where "s = child_pool_state reg g False r ch cs keeping tags"
  define dc where "dc = digest_calls (repo g @ ''/'' @ r) (dlog cs) s"
  note facts = real_child_facts [where reg = reg and g = g and r = r and ch = ch and cs = cs
      and keeping = keeping and tags = tags, folded s_def]
  have 1: "int (length dc) = del s + int (length (errs s))"
    unfolding dc_def using facts(4,1,2,3) by (rule end_of_run_counts)
  have 2: "distinct (map fst (errs s))" using facts(2) by (simp add: errs_ok_def)
  have 3: "set (map fst (errs s)) = {cause e |e. \<exists>x. (x, Some e) \<in> set dc}"
    unfolding dc_def using facts(4,2,3) by (rule end_of_run_causes)
  have 4: "take (length (dlog cs)) (calls s) = dlog cs" "sound_from reg (length (dlog cs)) (calls s)"
    using facts(4) by (simp_all add: trace_inv_def)
  obtain cs' where c: "clean_child reg g False r ch cs = Some cs'"
    and st: "status cs' = (if errs s \<noteq> [] then status cs else status cs @ [child_line g False r tags s])"
    using clean_child_listed [OF assms k, of False ch]
    by (cases "errs s = []") (simp_all add: Let_def s_def [symmetric])
  have 5: "errs s \<noteq> [] \<longrightarrow> status cs' = status cs" using st by simp
  have 6: "errs s = [] \<longrightarrow> status cs' = status cs @ [child_line g False r tags s]
                  \<and> st_deleted (child_line g False r tags s) = int (length dc)
                  \<and> (\<forall>en\<in>set dc. snd en = None)"
  proof
    assume e: "errs s = []"
    have "\<forall>en\<in>set dc. snd en = None"
      unfolding dc_def using facts(4,2,3) e by (rule end_of_run_no_error)
    then show "status cs' = status cs @ [child_line g False r tags s]
                  \<and> st_deleted (child_line g False r tags s) = int (length dc)
                  \<and> (\<forall>en\<in>set dc. snd en = None)"
      using st e 1 by (simp add: child_line_def)
  qed
  have C: "let s = child_pool_state reg g False r ch cs keeping tags;
             dc = digest_calls (repo g @ ''/'' @ r) (dlog cs) s
         in int (length dc) = del s + int (length (errs s))
            \<and> distinct (map fst (errs s))
            \<and> set (map fst (errs s)) = {cause e |e. \<exists>x. (x, Some e) \<in> set dc}
            \<and> take (length (dlog cs)) (calls s) = dlog cs
            \<and> sound_from reg (length (dlog cs)) (calls s)
            \<and> (errs s \<noteq> [] \<longrightarrow> status cs' = status cs)
            \<and> (errs s = [] \<longrightarrow> status cs' = status cs @ [child_line g False r tags s]
                  \<and> st_deleted (child_line g False r tags s) = int (length dc)
                  \<and> (\<forall>en\<in>set dc. snd en = None))"
    unfolding Let_def s_def [symmetric] dc_def [symmetric]
    by (intro conjI 1 2 3 4 5 6)
  have A: "\<forall>s i e. i < length (tasks s) \<and> pcs s ! i = Calling
             \<and> deleteOne_result reg (fst (tasks s ! i)) (calls s) = Some e
             \<and> map_of (errs s) (cause e) \<noteq> None \<longrightarrow>
            (let s' = worker_step reg n i (worker_step reg n i (worker_step reg n i s))
             in del s' = del s + 1 \<and> pcs s' ! i = Counted (Some e) \<and> errs s' = errs s
                \<and> calls s' = calls s @ [(fst (tasks s ! i), Some e)])"
    using refused_known_cause_counted by blast
  have B: "\<forall>s i e. i < length (tasks s) \<and> pcs s ! i = Calling
             \<and> deleteOne_result reg (fst (tasks s ! i)) (calls s) = Some e
             \<and> map_of (errs s) (cause e) = None \<longrightarrow>
            (let s' = worker_step reg n i (worker_step reg n i s)
             in del s' = del s \<and> pcs s' ! i = Recorded e \<and> errs s' = errs s @ [(cause e, e)]
                \<and> calls s' = calls s @ [(fst (tasks s ! i), Some e)])"
    using refused_new_cause_not_counted by blast
  have D: "\<forall>s i. i < length (tasks s) \<and> pcs s ! i = Calling
             \<and> deleteOne_result reg (fst (tasks s ! i)) (calls s) = None \<longrightarrow>
            (let s' = worker_step reg n i (worker_step reg n i s)
             in del s' = del s + 1 \<and> pcs s' ! i = Counted None \<and> errs s' = errs s
                \<and> calls s' = calls s @ [(fst (tasks s ! i), None)])"
    using accepted_counted by blast
  show ?thesis
    by (intro exI [of _ keeping] exI [of _ cs'] conjI k c C A B D)
qed

lemma web_keeping_built:
  "build_keeping ex_globals plain_cleaner (repo ex_globals @ ''/'' @ ''web'') (TagNames web_listing)
     = Some web_keeping"
  by (simp add: build_keeping_def Let_def initial_control_def max_int_def ex_globals_def
      plain_cleaner_def web_listing_def web_keeping_def lookup_def tagName_of_def keep_loop.simps)

theorem counted_failures_never_reported_witness:
  "gcr_NewRepository denied_registry (repo ex_globals @ ''/'' @ ''web'') = None
   \<and> gcr_List denied_registry (repo ex_globals @ ''/'' @ ''web'') = Inr web_listing
   \<and> (\<exists>cs'. clean_child denied_registry ex_globals False ''web'' (both_fail, []) start_state = Some cs'
         \<and> status cs' = status start_state)
   \<and> (let s = child_pool_state denied_registry ex_globals False ''web'' (both_fail, []) start_state
                web_keeping web_listing
      in errs s \<noteq> [] \<and> length (errs s) = 1 \<and> del s = 1
         \<and> length (digest_calls (repo ex_globals @ ''/'' @ ''web'') (dlog start_state) s) = 2)"
proof -
  define s where "s = child_pool_state denied_registry ex_globals False ''web'' (both_fail, []) start_state
                web_keeping web_listing"
  define dc where "dc = digest_calls (repo ex_globals @ ''/'' @ ''web'') (dlog start_state) s"
  from counted_failures_never_reported [OF web_resolves(1,2), of start_state "(both_fail, [])"]
  obtain keeping cs' where
    k: "build_keeping ex_globals (cleaner start_state) (repo ex_globals @ ''/'' @ ''web'')
          (TagNames web_listing) = Some keeping"
    and c: "clean_child denied_registry ex_globals False ''web'' (both_fail, []) start_state = Some cs'"
    and f: "let s = child_pool_state denied_registry ex_globals False ''web'' (both_fail, []) start_state
                      keeping web_listing;
                dc = digest_calls (repo ex_globals @ ''/'' @ ''web'') (dlog start_state) s
            in int (length dc) = del s + int (length (errs s))
               \<and> distinct (map fst (errs s))
               \<and> set (map fst (errs s)) = {cause e |e. \<exists>x. (x, Some e) \<in> set dc}
               \<and> take (length (dlog start_state)) (calls s) = dlog start_state
               \<and> sound_from denied_registry (length (dlog start_state)) (calls s)
               \<and> (errs s \<noteq> [] \<longrightarrow> status cs' = status start_state)
               \<and> (errs s = [] \<longrightarrow> status cs' = status start_state @ [child_line ex_globals False ''web'' web_listing s]
                     \<and> st_deleted (child_line ex_globals False ''web'' web_listing s) = int (length dc)
                     \<and> (\<forall>en\<in>set dc. snd en = None))"
    by blast
  have "keeping = web_keeping" using k web_keeping_built by (simp add: start_state_def)
  note g = f [unfolded this Let_def, folded s_def, folded dc_def]
  have e: "errs s \<noteq> []" "length (errs s) = 1" "del s = 1" unfolding s_def by code_simp+
  have "status cs' = status start_state" using g e(1) by blast
  moreover have "int (length dc) = del s + int (length (errs s))" using g by blast
  then have "length dc = 2" using e by simp
  ultimately show ?thesis
    unfolding Let_def s_def [symmetric] dc_def [symmetric] using c e web_resolves(1,2) by blast
qed

section \<open>The loop over the children, child by child\<close>













section \<open>Errors of a repository\<close>





section \<open>Errors of a run\<close>




end
